theory Spec2Isabelle
  imports Main
begin

section \<open>Common: JavaScript errors and strings\<close>

text \<open>
  The program is TypeScript. The only failures of the modelled code are the implicit
  \<^verbatim>\<open>TypeError\<close>s of JavaScript: reading a property of \<^verbatim>\<open>undefined\<close> or
  \<^verbatim>\<open>null\<close> (an array read out of range gives \<^verbatim>\<open>undefined\<close>, and the property read
  that follows throws). A fallible operation returns \<open>error + 'a\<close>, \<open>Inl\<close> the error.
\<close>

datatype error = TypeError

text \<open>
  \<^verbatim>\<open>String.prototype.toUpperCase\<close> on ASCII text (element symbols, theme keys): the 26
  letters \<^verbatim>\<open>a\<close>..\<^verbatim>\<open>z\<close> (codes 97..122) move to \<^verbatim>\<open>A\<close>..\<^verbatim>\<open>Z\<close>, every other ASCII
  character stays. Statements that depend on the letters it changes are made for ASCII
  strings only.
\<close>

definition isAscii :: "string \<Rightarrow> bool" where
  "isAscii s = list_all (\<lambda>c. (of_char c :: nat) < 128) s"

definition isLowerChar :: "char \<Rightarrow> bool" where
  "isLowerChar c = (97 \<le> (of_char c :: nat) \<and> (of_char c :: nat) \<le> 122)"

definition toUpperChar :: "char \<Rightarrow> char" where
  "toUpperChar c = (if isLowerChar c then char_of ((of_char c :: nat) - 32) else c)"

definition toUpperCase :: "string \<Rightarrow> string" where
  "toUpperCase s = map toUpperChar s"

section \<open>ThemeManager.ts\<close>

text \<open>
  A theme is a \<^verbatim>\<open>Record<string, string>\<close>: a map from keys to colour strings. The
  constructor stores \<^verbatim>\<open>this.colors[theme]\<close>. A property read follows the prototype
  chain: for a name that is not an entry of the colours (a plain object) it gives what
  \<^verbatim>\<open>Object.prototype\<close> has under that name, and \<^verbatim>\<open>undefined\<close> (\<open>None\<close>) when it has
  nothing. The inherited values are objects none of whose properties has a name without
  a lower-case letter: as a theme each of them is the empty map.
\<close>

definition inheritedNames :: "string list" where
  "inheritedNames =
     [''constructor'', ''hasOwnProperty'', ''isPrototypeOf'', ''propertyIsEnumerable'',
      ''toLocaleString'', ''toString'', ''valueOf'', ''__proto__'', ''__defineGetter__'',
      ''__defineSetter__'', ''__lookupGetter__'', ''__lookupSetter__'']"

record ThemeManager =
  colors :: "string \<rightharpoonup> (string \<rightharpoonup> string)"
  theme :: "(string \<rightharpoonup> string) option"

definition ThemeManager_new :: "(string \<rightharpoonup> (string \<rightharpoonup> string)) \<Rightarrow> string \<Rightarrow> ThemeManager" where
  "ThemeManager_new cs name =
     \<lparr>colors = cs,
      theme = (case cs name of
                 Some t \<Rightarrow> Some t
               | None \<Rightarrow> if name \<in> set inheritedNames then Some Map.empty else None)\<rparr>"

text \<open>
  \<^verbatim>\<open>getColor\<close>: \<^verbatim>\<open>if (key)\<close> is false exactly for the empty string. \<^verbatim>\<open>key in this.theme\<close>
  and \<^verbatim>\<open>this.theme['C']\<close> throw when \<^verbatim>\<open>this.theme\<close> is \<^verbatim>\<open>undefined\<close>. The result is
  \<open>None\<close> for \<^verbatim>\<open>undefined\<close> (a theme without the entry read). The properties a theme
  object inherits from \<^verbatim>\<open>Object.prototype\<close> all have a lower-case letter in their
  names, so no upper-cased key meets them and \<^verbatim>\<open>in\<close> is membership in the theme's own
  entries.
\<close>

definition getColor :: "ThemeManager \<Rightarrow> string \<Rightarrow> error + string option" where
  "getColor tm key =
     (case theme tm of
        None \<Rightarrow> Inl TypeError
      | Some t \<Rightarrow>
          (if key \<noteq> [] \<and> t (toUpperCase key) \<noteq> None
           then Inr (t (toUpperCase key))
           else Inr (t ''C'')))"

text \<open>
  \<^verbatim>\<open>setTheme\<close>: switches only to a theme that exists; the test is \<^verbatim>\<open>hasOwnProperty\<close>,
  which sees the entries of the colours and no inherited name.
\<close>

definition setTheme :: "ThemeManager \<Rightarrow> string \<Rightarrow> ThemeManager" where
  "setTheme tm name = (if colors tm name \<noteq> None then tm\<lparr>theme := colors tm name\<rparr> else tm)"

section \<open>Atom.ts\<close>

record IBracket =
  isotope :: "nat option"
  bracket_element :: string
  chirality :: "string option"
  hcount :: nat
  charge :: int
  bracket_class :: "nat option"

record IPseudoElement =
  pseudo_element :: string
  count :: nat
  hydrogenCount :: nat
  previousElement :: string
  pseudo_charge :: int

record IRingbond =
  id_ringbond :: nat
  ringbond_bondType :: string

datatype direction = up | down

record Atom =
  idx :: "nat option"
  element :: string
  drawExplicit :: bool
  ringbonds :: "IRingbond list"
  rings :: "nat list"
  bondType :: string
  branchBond :: "string option"
  atom_isBridge :: bool
  isBridgeNode :: bool
  originalRings :: "nat list"
  bridgedRing :: "nat option"
  anchoredRings :: "nat list"
  bracket :: "IBracket option"
  plane :: int
  attachedPseudoElements :: "string \<rightharpoonup> IPseudoElement"
  hasAttachedPseudoElements :: bool
  isDrawn :: bool
  isConnectedToRing :: bool
  neighbouringElements :: "string list"
  isPartOfAromaticRing :: bool
  bondCount :: nat
  atom_chirality :: string
  isStereoCenter :: bool
  priority :: int
  mainChain :: bool
  hydrogenDirection :: direction
  subtreeDepth :: nat
  hasHydrogen :: bool

text \<open>
  The constructor. \<^verbatim>\<open>this.element\<close> is the upper-cased string for a string of length 1
  and the string itself otherwise; \<^verbatim>\<open>isPartOfAromaticRing\<close> is
  \<^verbatim>\<open>element !== this.element\<close>.
\<close>

definition Atom_new :: "string \<Rightarrow> string \<Rightarrow> Atom" where
  "Atom_new el bt =
     (let stored = (if length el = 1 then toUpperCase el else el) in
      \<lparr>idx = None,
       element = stored,
       drawExplicit = False,
       ringbonds = [],
       rings = [],
       bondType = bt,
       branchBond = None,
       atom_isBridge = False,
       isBridgeNode = False,
       originalRings = [],
       bridgedRing = None,
       anchoredRings = [],
       bracket = None,
       plane = 0,
       attachedPseudoElements = Map.empty,
       hasAttachedPseudoElements = False,
       isDrawn = True,
       isConnectedToRing = False,
       neighbouringElements = [],
       isPartOfAromaticRing = (el \<noteq> stored),
       bondCount = 0,
       atom_chirality = [],
       isStereoCenter = False,
       priority = 0,
       mainChain = False,
       hydrogenDirection = down,
       subtreeDepth = 1,
       hasHydrogen = False\<rparr>)"

text \<open>
  What the specification calls lower-case element notation: a non-empty symbol written
  in lower-case letters only, as SMILES writes aromatic atoms (\<^verbatim>\<open>c\<close>, \<^verbatim>\<open>n\<close>, \<^verbatim>\<open>se\<close>).
\<close>

definition lowerCaseNotation :: "string \<Rightarrow> bool" where
  "lowerCaseNotation s = (s \<noteq> [] \<and> list_all isLowerChar s)"

section \<open>Vertex and Ring\<close>

text \<open>
  The fields of a vertex are those of the object \<^verbatim>\<open>Graph.createVertex\<close> returns. The
  atom it carries is a parameter: an \<open>Atom\<close> where the ring code reads it.
\<close>

record 'a Vertex =
  id_vertex :: nat
  vertex_value :: 'a
  neighbours :: "nat list"
  vertex_edges :: "nat list"
  spanningTreeChildren :: "nat list"
  parentVertexId :: "nat option"
  positioned :: bool
  forcePositioned :: bool

record Ring =
  id_ring :: "nat option"
  members :: "nat list"

section \<open>RingConnection.ts\<close>

text \<open>
  \<^verbatim>\<open>vertices\<close> is a JavaScript \<^verbatim>\<open>Set<number>\<close>: the list of its members in insertion
  order, without duplicates. \<^verbatim>\<open>Set.add\<close> appends a new member and ignores a present one;
  \<^verbatim>\<open>size\<close> is the length of the list; \<^verbatim>\<open>for ... of\<close> walks the list.
\<close>

record RingConnection =
  id_rc :: "nat option"
  firstRingId :: "nat option"
  secondRingId :: "nat option"
  rc_vertices :: "nat list"

definition addVertex_rc :: "RingConnection \<Rightarrow> nat \<Rightarrow> RingConnection" where
  "addVertex_rc rc v =
     (if v \<in> set (rc_vertices rc) then rc else rc\<lparr>rc_vertices := rc_vertices rc @ [v]\<rparr>)"

definition RingConnection_new :: "Ring \<Rightarrow> Ring \<Rightarrow> RingConnection" where
  "RingConnection_new firstRing secondRing =
     fold (\<lambda>c rc. fold (\<lambda>d rc'. if c = d then addVertex_rc rc' c else rc') (members secondRing) rc)
       (members firstRing)
       \<lparr>id_rc = None, firstRingId = id_ring firstRing, secondRingId = id_ring secondRing,
        rc_vertices = []\<rparr>"

definition updateOther :: "RingConnection \<Rightarrow> nat \<Rightarrow> nat \<Rightarrow> RingConnection" where
  "updateOther rc ringId otherRingId =
     (if firstRingId rc = Some otherRingId then rc\<lparr>secondRingId := Some ringId\<rparr>
      else rc\<lparr>firstRingId := Some ringId\<rparr>)"

definition containsRing :: "RingConnection \<Rightarrow> nat \<Rightarrow> bool" where
  "containsRing rc ringId = (firstRingId rc = Some ringId \<or> secondRingId rc = Some ringId)"

text \<open>
  \<^verbatim>\<open>isBridge(vertices)\<close>. The loop reads \<^verbatim>\<open>vertices[vertexId].value.rings.length\<close>; for a
  vertex id outside the array the read of \<^verbatim>\<open>.value\<close> throws.
\<close>

fun isBridge_loop :: "nat list \<Rightarrow> Atom Vertex list \<Rightarrow> error + bool" where
  "isBridge_loop [] vs = Inr False"
| "isBridge_loop (vertexId # rest) vs =
     (if vertexId < length vs
      then (if length (rings (vertex_value (vs ! vertexId))) > 2 then Inr True
            else isBridge_loop rest vs)
      else Inl TypeError)"

definition isBridge :: "RingConnection \<Rightarrow> Atom Vertex list \<Rightarrow> error + bool" where
  "isBridge rc vs =
     (if length (rc_vertices rc) > 2 then Inr True else isBridge_loop (rc_vertices rc) vs)"

text \<open>A vertex that carries a carbon atom with the given ring memberships, for examples.\<close>

definition example_vertex :: "nat list \<Rightarrow> Atom Vertex" where
  "example_vertex rs =
     \<lparr>id_vertex = 0, vertex_value = (Atom_new ''C'' ''-'')\<lparr>rings := rs\<rparr>, neighbours = [],
      vertex_edges = [], spanningTreeChildren = [], parentVertexId = None, positioned = False,
      forcePositioned = False\<rparr>"

section \<open>Edge (the class)\<close>

text \<open>
  The class \<^verbatim>\<open>Edge\<close>: \<^verbatim>\<open>setBondType\<close> stores the symbol and looks the weight up in the
  table \<^verbatim>\<open>Edge.bonds\<close>; a symbol outside the table gives \<^verbatim>\<open>undefined\<close> (\<open>None\<close>). The
  backslash is the character with code 92.
\<close>

record Edge =
  id_edge :: "nat option"
  sourceId :: nat
  targetId :: nat
  weight :: "nat option"
  bondType :: string
  isPartOfAromaticRing :: bool
  center :: bool
  wedge :: string

definition bonds :: "string \<rightharpoonup> nat" where
  "bonds = [''-'' \<mapsto> 1, ''/'' \<mapsto> 1, [CHR 0x5C] \<mapsto> 1, ''='' \<mapsto> 2, ''#'' \<mapsto> 3, ''$'' \<mapsto> 4]"

definition Edge_new :: "nat \<Rightarrow> nat \<Rightarrow> nat \<Rightarrow> Edge" where
  "Edge_new s t w =
     \<lparr>id_edge = None, sourceId = s, targetId = t, weight = Some w, bondType = ''-'',
      isPartOfAromaticRing = False, center = False, wedge = []\<rparr>"

definition setBondType :: "Edge \<Rightarrow> string \<Rightarrow> Edge" where
  "setBondType e bt = e\<lparr>bondType := bt, weight := bonds bt\<rparr>"

section \<open>Graph.ts\<close>

subsection \<open>The parse tree\<close>

text \<open>
  \<^verbatim>\<open>node.atom\<close> is a string for an atom written plainly and the bracket object for an
  atom written in brackets. In a bracket, \<^verbatim>\<open>hcount\<close> is a number or \<^verbatim>\<open>null\<close>; \<^verbatim>\<open>null\<close>
  counts as 0 in both places that read it (\<^verbatim>\<open>offset += null\<close> adds 0 and \<^verbatim>\<open>i < null\<close> is
  false), so it is the number 0 here. \<^verbatim>\<open>branchCount\<close> and \<^verbatim>\<open>hasNext\<close> are fields of their
  own, as in the source, beside \<^verbatim>\<open>branches\<close> and \<^verbatim>\<open>next\<close>.
\<close>

datatype atom_of_node = Simple string | Bracket IBracket

datatype ParseTreeNode = ParseTreeNode
  (atom: atom_of_node)
  (bond: string)
  (node_branchBond: "string option")
  (node_ringbonds: "IRingbond list")
  (branches: "ParseTreeNode list")
  (branchCount: nat)
  (ringbondCount: nat)
  (next_node: "ParseTreeNode option")
  (hasNext: bool)

text \<open>
  \<^verbatim>\<open>node.atom.element ? node.atom.element : node.atom\<close>: the element of a bracket whose
  element string is not empty, the plain string (whose \<^verbatim>\<open>.element\<close> is \<^verbatim>\<open>undefined\<close>), or
  the bracket object itself when its element string is empty.
\<close>

datatype element_value = Sym string | Obj IBracket

fun element_of :: "atom_of_node \<Rightarrow> element_value" where
  "element_of (Simple s) = Sym s"
| "element_of (Bracket b) = (if bracket_element b \<noteq> [] then Sym (bracket_element b) else Obj b)"

text \<open>\<^verbatim>\<open>node.atom.element ? node.atom : null\<close>\<close>

fun bracket_of :: "atom_of_node \<Rightarrow> IBracket option" where
  "bracket_of (Simple s) = None"
| "bracket_of (Bracket b) = (if bracket_element b \<noteq> [] then Some b else None)"

text \<open>\<^verbatim>\<open>node.atom.class\<close>\<close>

fun class_of :: "atom_of_node \<Rightarrow> nat option" where
  "class_of (Simple s) = None"
| "class_of (Bracket b) = bracket_class b"

text \<open>Truthiness of \<^verbatim>\<open>atom.bracket.chirality\<close>: a string that is not empty.\<close>

definition hasChirality :: "IBracket \<Rightarrow> bool" where
  "hasChirality b = (case chirality b of None \<Rightarrow> False | Some c \<Rightarrow> c \<noteq> [])"

text \<open>\<^verbatim>\<open>s || "-"\<close> for a string or \<^verbatim>\<open>null\<close>.\<close>

fun or_dash :: "string option \<Rightarrow> string" where
  "or_dash None = ''-''"
| "or_dash (Some s) = (if s = [] then ''-'' else s)"

subsection \<open>The objects the builder creates\<close>

text \<open>
  \<^verbatim>\<open>_init\<close> builds its atom and its edge as object literals, with the fields below (not
  with the classes \<^verbatim>\<open>Atom\<close> and \<^verbatim>\<open>Edge\<close>). The literal edge has its own \<^verbatim>\<open>setBondType\<close>,
  which stores the symbol only.
\<close>

record atom_literal =
  element :: element_value
  bondType :: string
  idx :: "nat option"
  branchBond :: "string option"
  ringbonds :: "IRingbond list"
  bracket :: "IBracket option"
  atom_class :: "nat option"
  isStereoCenter :: bool
  isPartOfAromaticRing :: bool
  bondCount :: nat
  neighbouringElements :: "element_value list"

record edge_literal =
  id_edge :: nat
  sourceId :: nat
  targetId :: nat
  weight :: nat
  bondType :: string
  isPartOfAromaticRing :: bool

definition setBondType_literal :: "edge_literal \<Rightarrow> string \<Rightarrow> edge_literal" where
  "setBondType_literal e bt = e\<lparr>edge_literal.bondType := bt\<rparr>"

text \<open>
  The fields \<^verbatim>\<open>_atomIdx\<close> and \<^verbatim>\<open>_time\<close> are \<open>atomIdx\<close> and \<open>time\<close>. \<^verbatim>\<open>vertexIdsToEdgeId\<close>
  is an object with string keys, kept as an association list.
\<close>

record Graph =
  vertices :: "atom_literal Vertex list"
  edges :: "edge_literal list"
  atomIdxToVertexId :: "nat list"
  vertexIdsToEdgeId :: "(string \<times> nat) list"
  isomeric :: bool
  atomIdx :: nat
  time :: nat

definition createVertex :: "atom_literal \<Rightarrow> atom_literal Vertex" where
  "createVertex a =
     \<lparr>id_vertex = 0, vertex_value = a, neighbours = [], vertex_edges = [],
      spanningTreeChildren = [], parentVertexId = None, positioned = False,
      forcePositioned = False\<rparr>"

text \<open>
  Modelled from the spec: \<^verbatim>\<open>Graph.addVertex\<close> and \<^verbatim>\<open>Graph.addEdge\<close> are called by
  \<^verbatim>\<open>_init\<close> and are not defined in the source file of the class. The specification says
  of them that the builder assigns dense integer ids, \<open>0..n-1\<close>, to vertices and to edges:
  each gives its argument the next free id (the number of vertices, or edges, so far),
  appends it to the graph's array and returns the id. Nothing else is said of them and
  nothing else is modelled.
\<close>

definition addVertex :: "Graph \<Rightarrow> atom_literal Vertex \<Rightarrow> Graph \<times> nat" where
  "addVertex g v =
     (g\<lparr>vertices := vertices g @ [v\<lparr>id_vertex := length (vertices g)\<rparr>]\<rparr>, length (vertices g))"

definition addEdge :: "Graph \<Rightarrow> edge_literal \<Rightarrow> Graph \<times> nat" where
  "addEdge g e =
     (g\<lparr>edges := edges g @ [e\<lparr>edge_literal.id_edge := length (edges g)\<rparr>]\<rparr>, length (edges g))"

subsection \<open>The recursive builder\<close>

text \<open>
  The atom literal of \<^verbatim>\<open>_init\<close>, after the assignments that follow it: \<^verbatim>\<open>idx\<close> is the
  running heavy-atom index when the element is not \<^verbatim>\<open>"H"\<close>, or when the node has no
  \<^verbatim>\<open>next\<close> and no parent vertex; otherwise it stays \<^verbatim>\<open>null\<close>.
\<close>

definition new_atom :: "ParseTreeNode \<Rightarrow> nat option \<Rightarrow> nat \<Rightarrow> atom_literal" where
  "new_atom node parentId next_idx =
     \<lparr>element = element_of (atom node),
      bondType = bond node,
      idx = (if element_of (atom node) \<noteq> Sym ''H'' \<or> (\<not> hasNext node \<and> parentId = None)
             then Some next_idx else None),
      branchBond = node_branchBond node,
      ringbonds = node_ringbonds node,
      bracket = bracket_of (atom node),
      atom_class = class_of (atom node),
      isStereoCenter = False,
      isPartOfAromaticRing = False,
      bondCount = 0,
      neighbouringElements = []\<rparr>"

text \<open>
  Objects are shared by reference: the vertex in the array is the vertex \<^verbatim>\<open>_init\<close>
  holds, and its \<^verbatim>\<open>value\<close> is the atom \<^verbatim>\<open>_init\<close> holds. The array of vertices is the
  store, a vertex id the address, and every mutation of a vertex or of its atom is an
  update of the array at that id.
\<close>

definition update_vertex :: "nat \<Rightarrow> (atom_literal Vertex \<Rightarrow> atom_literal Vertex) \<Rightarrow> Graph \<Rightarrow> Graph" where
  "update_vertex i f g = g\<lparr>vertices := (vertices g)[i := f (vertices g ! i)]\<rparr>"

definition addNeighbouringElement :: "element_value \<Rightarrow> atom_literal Vertex \<Rightarrow> atom_literal Vertex" where
  "addNeighbouringElement e v =
     v\<lparr>vertex_value := (vertex_value v)\<lparr>neighbouringElements := neighbouringElements (vertex_value v) @ [e]\<rparr>\<rparr>"

definition setParentVertexId :: "nat \<Rightarrow> atom_literal Vertex \<Rightarrow> atom_literal Vertex" where
  "setParentVertexId p v = v\<lparr>parentVertexId := Some p\<rparr>"

definition addChild :: "nat \<Rightarrow> atom_literal Vertex \<Rightarrow> atom_literal Vertex" where
  "addChild vertexId v = v\<lparr>neighbours := neighbours v @ [vertexId]\<rparr>"

definition push_spanningTreeChildren :: "nat \<Rightarrow> atom_literal Vertex \<Rightarrow> atom_literal Vertex" where
  "push_spanningTreeChildren vertexId v =
     v\<lparr>spanningTreeChildren := spanningTreeChildren v @ [vertexId]\<rparr>"

text \<open>
  The block under \<^verbatim>\<open>if (parentVertexId !== null)\<close>, for a parent vertex that exists: the
  new vertex \<open>vid\<close> is linked to its parent \<open>p\<close> and the edge between them is added. The
  edge starts with weight 1 and the empty symbol; its own \<^verbatim>\<open>setBondType\<close> stores the
  branch bond of the new atom (for a branch) or the bond of the parent atom, \<^verbatim>\<open>"-"\<close> when
  that is empty or \<^verbatim>\<open>null\<close>.
\<close>

definition connect :: "nat \<Rightarrow> nat \<Rightarrow> bool \<Rightarrow> Graph \<Rightarrow> Graph" where
  "connect p vid isBranch g =
     (let g1 = update_vertex vid (setParentVertexId p) g;
          g2 = update_vertex vid (addNeighbouringElement (element (vertex_value (vertices g1 ! p)))) g1;
          g3 = update_vertex p (addChild vid) g2;
          g4 = update_vertex p (addNeighbouringElement (element (vertex_value (vertices g3 ! vid)))) g3;
          g5 = update_vertex p (push_spanningTreeChildren vid) g4;
          edge = \<lparr>id_edge = 0, sourceId = p, targetId = vid, weight = 1, bondType = [],
                  isPartOfAromaticRing = False\<rparr>;
          edge' = (if isBranch
                   then setBondType_literal edge (or_dash (branchBond (vertex_value (vertices g5 ! vid))))
                   else setBondType_literal edge
                          (or_dash (Some (atom_literal.bondType (vertex_value (vertices g5 ! p))))))
      in fst (addEdge g5 edge'))"

text \<open>
  \<^verbatim>\<open>_init\<close> up to the edge: the atom, the vertex, the index map, the link to the parent.
  \<^verbatim>\<open>this.vertices[parentVertexId]\<close> is read before the new vertex is added; when it is
  \<^verbatim>\<open>undefined\<close> (no vertex with that id), \<^verbatim>\<open>parentVertex.value\<close> throws. The result is
  the graph and the id of the new vertex.
\<close>

definition init_vertex :: "ParseTreeNode \<Rightarrow> nat option \<Rightarrow> bool \<Rightarrow> Graph \<Rightarrow> error + (Graph \<times> nat)" where
  "init_vertex node parentId isBranch g =
     (let a = new_atom node parentId (atomIdx g);
          g1 = (if idx a \<noteq> None then g\<lparr>atomIdx := atomIdx g + 1\<rparr> else g);
          parentVertex_defined = (case parentId of None \<Rightarrow> False | Some p \<Rightarrow> p < length (vertices g1));
          (g2, vid) = addVertex g1 (createVertex a);
          g3 = (if idx a \<noteq> None then g2\<lparr>atomIdxToVertexId := atomIdxToVertexId g2 @ [vid]\<rparr> else g2)
      in case parentId of
           None \<Rightarrow> Inr (g3, vid)
         | Some p \<Rightarrow> (if parentVertex_defined then Inr (connect p vid isBranch g3, vid)
                      else Inl TypeError))"

text \<open>\<^verbatim>\<open>offset\<close>, the test \<^verbatim>\<open>atom.bracket && atom.bracket.chirality\<close>, and \<^verbatim>\<open>stereoHydrogens\<close>.\<close>

definition offset_of :: "ParseTreeNode \<Rightarrow> nat" where
  "offset_of node =
     ringbondCount node + 1 + (case bracket_of (atom node) of None \<Rightarrow> 0 | Some b \<Rightarrow> hcount b)"

definition isStereo :: "ParseTreeNode \<Rightarrow> bool" where
  "isStereo node = (case bracket_of (atom node) of None \<Rightarrow> False | Some b \<Rightarrow> hasChirality b)"

definition stereoHydrogens_of :: "ParseTreeNode \<Rightarrow> nat" where
  "stereoHydrogens_of node = (case bracket_of (atom node) of None \<Rightarrow> 0 | Some b \<Rightarrow> hcount b)"

definition markStereoCenter :: "atom_literal Vertex \<Rightarrow> atom_literal Vertex" where
  "markStereoCenter v = v\<lparr>vertex_value := (vertex_value v)\<lparr>isStereoCenter := True\<rparr>\<rparr>"

text \<open>The node literal that \<^verbatim>\<open>_init\<close> passes to itself for each stereo hydrogen.\<close>

definition hydrogen :: ParseTreeNode where
  "hydrogen = ParseTreeNode (Simple ''H'') ''-'' None [] [] 0 0 None False"

text \<open>
  For the termination of the builder: a call on a node of the tree is on a smaller tree;
  the call on the hydrogen literal comes from a node with a chirality tag, which the
  literal has not.
\<close>

lemma size_nth_branches: "i < length bs \<Longrightarrow> size (bs ! i) < size_list size bs"
proof (induction bs arbitrary: i)
  case Nil
  then show ?case by simp
next
  case (Cons b bs)
  then show ?case by (cases i) force+
qed

lemma size_hydrogen: "size hydrogen \<le> size (node :: ParseTreeNode)"
  by (cases node; cases "next_node node") (simp_all add: hydrogen_def)

lemma hydrogen_not_stereo: "\<not> isStereo hydrogen"
  by (simp add: isStereo_def hydrogen_def)

lemma size_branches: "size_list size (branches node) < size node"
  by (cases node) simp

lemma size_next_node: "next_node node = Some nx \<Longrightarrow> size nx < size node"
  by (cases node) simp

text \<open>
  \<^verbatim>\<open>_init(node, order, parentVertexId, isBranch)\<close> with its two loops: \<open>init_stereo\<close> is
  \<^verbatim>\<open>for (i = 0; i < stereoHydrogens; i++)\<close> and \<open>init_branches\<close> is
  \<^verbatim>\<open>for (i = 0; i < node.branchCount; i++)\<close>, which reads \<^verbatim>\<open>node.branches[i]\<close>: past the
  end of the array that is \<^verbatim>\<open>undefined\<close> and the call throws at \<^verbatim>\<open>node.atom\<close>. With
  \<^verbatim>\<open>hasNext\<close> set and \<^verbatim>\<open>next\<close> \<^verbatim>\<open>null\<close> the last call throws likewise. The graph is passed
  through; an error ends the construction.
\<close>

function (sequential) init :: "ParseTreeNode \<Rightarrow> nat \<Rightarrow> nat option \<Rightarrow> bool \<Rightarrow> Graph \<Rightarrow> error + Graph"
  and init_stereo :: "nat \<Rightarrow> nat \<Rightarrow> nat \<Rightarrow> Graph \<Rightarrow> error + Graph"
  and init_branches :: "ParseTreeNode list \<Rightarrow> nat \<Rightarrow> nat \<Rightarrow> nat \<Rightarrow> nat \<Rightarrow> Graph \<Rightarrow> error + Graph"
where
  "init node order parentId isBranch g =
     (case init_vertex node parentId isBranch g of
        Inl e \<Rightarrow> Inl e
      | Inr (g1, vid) \<Rightarrow>
          (case (if isStereo node
                 then init_stereo 0 (stereoHydrogens_of node) vid (update_vertex vid markStereoCenter g1)
                 else Inr g1) of
             Inl e \<Rightarrow> Inl e
           | Inr g2 \<Rightarrow>
               (case init_branches (branches node) 0 (branchCount node) (offset_of node) vid g2 of
                  Inl e \<Rightarrow> Inl e
                | Inr g3 \<Rightarrow>
                    (if hasNext node
                     then (case next_node node of
                             None \<Rightarrow> Inl TypeError
                           | Some nx \<Rightarrow> init nx (branchCount node + offset_of node) (Some vid) False g3)
                     else Inr g3))))"
| "init_stereo i stereoHydrogens vid g =
     (if i < stereoHydrogens
      then (case init hydrogen i (Some vid) True g of
              Inl e \<Rightarrow> Inl e
            | Inr g' \<Rightarrow> init_stereo (i + 1) stereoHydrogens vid g')
      else Inr g)"
| "init_branches bs i n offset vid g =
     (if i < n
      then (if i < length bs
            then (case init (bs ! i) (i + offset) (Some vid) True g of
                    Inl e \<Rightarrow> Inl e
                  | Inr g' \<Rightarrow> init_branches bs (i + 1) n offset vid g')
            else Inl TypeError)
      else Inr g)"
  by pat_completeness auto

termination
proof (relation "inv_image (less_than <*lex*> less_than)
     (\<lambda>x. case x of
         Inl (node, order, p, b, g) \<Rightarrow> (3 * size node + (if isStereo node then 2 else 0), 0)
       | Inr (Inl (i, n, vid, g)) \<Rightarrow> (3 * size hydrogen + 1, n - i)
       | Inr (Inr (bs, i, n, offset, vid, g)) \<Rightarrow> (3 * size_list size bs + 2, n - i))",
    goal_cases)
  case 1
  show ?case by (intro wf_inv_image wf_lex_prod wf_less_than)
next
  case (2 node order parentId isBranch g b x y)
  have "isStereo node" by fact
  then show ?case using size_hydrogen[of node] by simp
next
  case (3 node order parentId isBranch g b x y ba)
  show ?case using size_branches[of node] by simp
next
  case (4 node order parentId isBranch g b x y ba bb nx)
  have "next_node node = Some nx" by fact
  then show ?case using size_next_node[of node nx] by simp
next
  case (5 i stereoHydrogens vid g)
  show ?case by (simp add: hydrogen_not_stereo)
next
  case (6 i stereoHydrogens vid g g')
  have "i < stereoHydrogens" by fact
  then show ?case by simp
next
  case (7 bs i n offset vid g)
  have "i < length bs" by fact
  then show ?case using size_nth_branches[of i bs] by simp
next
  case (8 bs i n offset vid g g')
  have "i < n" by fact
  then show ?case by simp
qed

text \<open>
  The three equations apply to every call, so they are unfolded by hand and kept out of
  the simplifier.
\<close>

declare init.simps [simp del] init_stereo.simps [simp del] init_branches.simps [simp del]

text \<open>The constructor: empty arrays, counters at 0, then \<^verbatim>\<open>this._init(parseTree)\<close>.\<close>

definition empty_graph :: "bool \<Rightarrow> Graph" where
  "empty_graph isom =
     \<lparr>vertices = [], edges = [], atomIdxToVertexId = [], vertexIdsToEdgeId = [],
      isomeric = isom, atomIdx = 0, time = 0\<rparr>"

definition Graph_new :: "ParseTreeNode \<Rightarrow> bool \<Rightarrow> error + Graph" where
  "Graph_new parseTree isom = init parseTree 0 None False (empty_graph isom)"

subsection \<open>The documented shape of a parse tree, and what is counted on it\<close>

text \<open>
  The shape the Parser delivers: \<^verbatim>\<open>branchCount\<close> is the number of branches, \<^verbatim>\<open>hasNext\<close>
  says whether there is a \<^verbatim>\<open>next\<close> node, a bracket atom names its element, and the same
  holds in every branch and in the rest of the chain.
\<close>

fun wellFormed :: "ParseTreeNode \<Rightarrow> bool" where
  "wellFormed (ParseTreeNode a b bb rbs brs bc rc nx hn) =
     (bc = length brs \<and> (hn = (nx \<noteq> None))
      \<and> (case a of Simple s \<Rightarrow> True | Bracket br \<Rightarrow> bracket_element br \<noteq> [])
      \<and> list_all wellFormed brs
      \<and> (case nx of None \<Rightarrow> True | Some n \<Rightarrow> wellFormed n))"

text \<open>The number of atom nodes of a parse tree.\<close>

fun atomNodes :: "ParseTreeNode \<Rightarrow> nat" where
  "atomNodes (ParseTreeNode a b bb rbs brs bc rc nx hn) =
     1 + sum_list (map atomNodes brs) + (case nx of None \<Rightarrow> 0 | Some n \<Rightarrow> atomNodes n)"

text \<open>
  The bracket hydrogen counts of the bracket atoms that carry a chirality tag, summed
  over the tree.
\<close>

fun chiralHydrogens :: "atom_of_node \<Rightarrow> nat" where
  "chiralHydrogens (Simple s) = 0"
| "chiralHydrogens (Bracket b) = (if hasChirality b then hcount b else 0)"

fun stereoHydrogenTotal :: "ParseTreeNode \<Rightarrow> nat" where
  "stereoHydrogenTotal (ParseTreeNode a b bb rbs brs bc rc nx hn) =
     chiralHydrogens a + sum_list (map stereoHydrogenTotal brs)
       + (case nx of None \<Rightarrow> 0 | Some n \<Rightarrow> stereoHydrogenTotal n)"

text \<open>
  The elements of the atoms of a parse tree in the order of the visit: the atom of the
  node, then one hydrogen for each bracket hydrogen of an atom with a chirality tag, then
  the branches from first to last, then the rest of the chain.
\<close>

fun visitOrder :: "ParseTreeNode \<Rightarrow> element_value list" where
  "visitOrder (ParseTreeNode a b bb rbs brs bc rc nx hn) =
     element_of a # replicate (chiralHydrogens a) (Sym ''H'')
       @ concat (map visitOrder brs)
       @ (case nx of None \<Rightarrow> [] | Some n \<Rightarrow> visitOrder n)"

definition elements :: "Graph \<Rightarrow> element_value list" where
  "elements g = map (\<lambda>v. element (vertex_value v)) (vertices g)"

subsection \<open>One visit of the builder, for the proofs\<close>

text \<open>
  A call of \<^verbatim>\<open>_init\<close> creates its vertex (and marks it as a stereocentre) before any
  other call is made: \<open>visit\<close> is that first part of the call. The definitions after
  it name the vertex and the edge a visit leaves in the graph.
\<close>

definition visit :: "ParseTreeNode \<Rightarrow> nat option \<Rightarrow> bool \<Rightarrow> Graph \<Rightarrow> error + (Graph \<times> nat)" where
  "visit node parentId isBranch g =
     (case init_vertex node parentId isBranch g of
        Inl e \<Rightarrow> Inl e
      | Inr (g1, vid) \<Rightarrow>
          Inr (if isStereo node then update_vertex vid markStereoCenter g1 else g1, vid))"

definition linked_parent :: "nat \<Rightarrow> element_value \<Rightarrow> atom_literal Vertex \<Rightarrow> atom_literal Vertex" where
  "linked_parent vid e v = push_spanningTreeChildren vid (addNeighbouringElement e (addChild vid v))"

definition created_vertex :: "ParseTreeNode \<Rightarrow> nat option \<Rightarrow> Graph \<Rightarrow> atom_literal Vertex" where
  "created_vertex node parentId g =
     \<lparr>id_vertex = length (vertices g),
      vertex_value = (new_atom node parentId (atomIdx g))
         \<lparr>isStereoCenter := isStereo node,
          neighbouringElements :=
            (case parentId of None \<Rightarrow> [] | Some p \<Rightarrow> [element (vertex_value (vertices g ! p))])\<rparr>,
      neighbours = [], vertex_edges = [], spanningTreeChildren = [],
      parentVertexId = parentId, positioned = False, forcePositioned = False\<rparr>"

definition created_edge :: "ParseTreeNode \<Rightarrow> nat \<Rightarrow> bool \<Rightarrow> Graph \<Rightarrow> edge_literal" where
  "created_edge node p isBranch g =
     \<lparr>id_edge = length (edges g), sourceId = p, targetId = length (vertices g), weight = 1,
      bondType = (if isBranch then or_dash (node_branchBond node)
                  else or_dash (Some (atom_literal.bondType (vertex_value (vertices g ! p))))),
      isPartOfAromaticRing = False\<rparr>"

definition has_idx :: "ParseTreeNode \<Rightarrow> nat option \<Rightarrow> bool" where
  "has_idx node parentId = (element_of (atom node) \<noteq> Sym ''H'' \<or> (\<not> hasNext node \<and> parentId = None))"

definition added_vertex :: "ParseTreeNode \<Rightarrow> nat option \<Rightarrow> Graph \<Rightarrow> atom_literal Vertex" where
  "added_vertex node parentId g =
     (createVertex (new_atom node parentId (atomIdx g)))\<lparr>id_vertex := length (vertices g)\<rparr>"

definition indexed_graph :: "ParseTreeNode \<Rightarrow> nat option \<Rightarrow> Graph \<Rightarrow> Graph" where
  "indexed_graph node parentId g =
     (let g1 = (if has_idx node parentId then g\<lparr>atomIdx := atomIdx g + 1\<rparr> else g);
          g2 = g1\<lparr>vertices := vertices g1 @ [added_vertex node parentId g]\<rparr>
      in if has_idx node parentId
         then g2\<lparr>atomIdxToVertexId := atomIdxToVertexId g2 @ [length (vertices g)]\<rparr> else g2)"

definition tree_inv :: "Graph \<Rightarrow> bool" where
  "tree_inv g =
     (\<forall>i<length (vertices g).
        id_vertex (vertices g ! i) = i
        \<and> (case parentVertexId (vertices g ! i) of
             None \<Rightarrow> i = 0
           | Some p \<Rightarrow> p < i \<and> i \<in> set (spanningTreeChildren (vertices g ! p))
                        \<and> i \<in> set (neighbours (vertices g ! p))))"

fun climb :: "Graph \<Rightarrow> nat \<Rightarrow> nat \<Rightarrow> nat" where
  "climb g 0 i = i"
| "climb g (Suc k) i = (case parentVertexId (vertices g ! i) of None \<Rightarrow> i | Some p \<Rightarrow> climb g k p)"

definition subtotal :: "ParseTreeNode \<Rightarrow> nat" where
  "subtotal node = atomNodes node + stereoHydrogenTotal node"

definition same_core :: "atom_literal Vertex \<Rightarrow> atom_literal Vertex \<Rightarrow> bool" where
  "same_core v v' =
     (id_vertex v' = id_vertex v
      \<and> parentVertexId v' = parentVertexId v
      \<and> element (vertex_value v') = element (vertex_value v)
      \<and> idx (vertex_value v') = idx (vertex_value v)
      \<and> bracket (vertex_value v') = bracket (vertex_value v)
      \<and> isStereoCenter (vertex_value v') = isStereoCenter (vertex_value v)
      \<and> set (spanningTreeChildren v) \<subseteq> set (spanningTreeChildren v'))"

definition stable :: "Graph \<Rightarrow> Graph \<Rightarrow> bool" where
  "stable g g' =
     (length (vertices g) \<le> length (vertices g')
      \<and> (\<forall>i<length (vertices g). same_core (vertices g ! i) (vertices g' ! i)))"

definition hydrogen_child :: "Graph \<Rightarrow> nat \<Rightarrow> nat \<Rightarrow> bool" where
  "hydrogen_child g i j =
     (i < j \<and> j < length (vertices g)
      \<and> element (vertex_value (vertices g ! j)) = Sym ''H''
      \<and> parentVertexId (vertices g ! j) = Some i
      \<and> bracket (vertex_value (vertices g ! j)) = None
      \<and> idx (vertex_value (vertices g ! j)) = None
      \<and> j \<in> set (spanningTreeChildren (vertices g ! i)))"

definition stereo_done :: "Graph \<Rightarrow> nat \<Rightarrow> bool" where
  "stereo_done g i =
     (isStereoCenter (vertex_value (vertices g ! i)) \<longrightarrow>
        (\<forall>k < (case bracket (vertex_value (vertices g ! i)) of None \<Rightarrow> 0 | Some b \<Rightarrow> hcount b).
            hydrogen_child g i (i + 1 + k)))"

definition indexed :: "atom_literal Vertex \<Rightarrow> bool" where
  "indexed v = (idx (vertex_value v) \<noteq> None)"

definition idx_inv :: "ParseTreeNode \<Rightarrow> Graph \<Rightarrow> bool" where
  "idx_inv tree g =
     (map (\<lambda>v. idx (vertex_value v)) (filter indexed (vertices g)) = map Some [0..<atomIdx g]
      \<and> atomIdxToVertexId g = map id_vertex (filter indexed (vertices g))
      \<and> (\<forall>v\<in>set (vertices g).
            indexed v = (element (vertex_value v) \<noteq> Sym ''H'' \<or> (id_vertex v = 0 \<and> \<not> hasNext tree)))
      \<and> (\<forall>v\<in>set (vertices g). id_vertex v < length (vertices g)))"

definition flag_inv :: "Graph \<Rightarrow> bool" where
  "flag_inv g =
     (\<forall>v\<in>set (vertices g).
        isStereoCenter (vertex_value v)
          = (case bracket (vertex_value v) of None \<Rightarrow> False | Some b \<Rightarrow> hasChirality b))"

definition weight_inv :: "Graph \<Rightarrow> bool" where
  "weight_inv g = (\<forall>e\<in>set (edges g). weight e = 1)"

text \<open>Parse trees for examples: \<^verbatim>\<open>C=C\<close>, \<^verbatim>\<open>[C@H](F)(Cl)Br\<close> and \<^verbatim>\<open>[H](C)\<close>.\<close>

definition plain_atom :: "string \<Rightarrow> ParseTreeNode" where
  "plain_atom s = ParseTreeNode (Simple s) ''-'' None [] [] 0 0 None False"

definition example_double_bond :: ParseTreeNode where
  "example_double_bond =
     ParseTreeNode (Simple ''C'') ''='' None [] [] 0 0 (Some (plain_atom ''C'')) True"

definition example_chiral :: ParseTreeNode where
  "example_chiral =
     ParseTreeNode
       (Bracket \<lparr>isotope = None, bracket_element = ''C'', chirality = Some ''@'', hcount = 1,
                 charge = 0, bracket_class = None\<rparr>)
       ''-'' None [] [plain_atom ''F'', plain_atom ''Cl''] 2 0 (Some (plain_atom ''Br'')) True"

definition example_hydrogen_root :: ParseTreeNode where
  "example_hydrogen_root =
     ParseTreeNode
       (Bracket \<lparr>isotope = None, bracket_element = ''H'', chirality = None, hcount = 0,
                 charge = 0, bracket_class = None\<rparr>)
       ''-'' None [] [plain_atom ''C''] 1 0 None False"

text \<open>What the examples show of a graph: per vertex, and per edge.\<close>

definition vertex_summary :: "Graph \<Rightarrow> (element_value \<times> nat option \<times> nat option \<times> bool) list" where
  "vertex_summary g =
     map (\<lambda>v. (element (vertex_value v), idx (vertex_value v), parentVertexId v,
               isStereoCenter (vertex_value v))) (vertices g)"

definition edge_summary :: "Graph \<Rightarrow> (nat \<times> nat \<times> string \<times> nat) list" where
  "edge_summary g = map (\<lambda>e. (sourceId e, targetId e, edge_literal.bondType e, weight e)) (edges g)"

section \<open>MathHelper.ts\<close>

text \<open>
  \<^verbatim>\<open>parityOfPermutation(arr)\<close>. The array holds natural numbers. \<^verbatim>\<open>visited\<close> is a
  \<^verbatim>\<open>Uint8Array\<close> of the length of \<^verbatim>\<open>arr\<close> that only ever holds 0 and 1: the function
  from the indices of \<^verbatim>\<open>arr\<close> to its flags. An index is a number or \<^verbatim>\<open>undefined\<close>
  (\<open>None\<close>): \<^verbatim>\<open>arr[i]\<close> is \<^verbatim>\<open>undefined\<close> for \<open>i\<close> outside the array and for \<open>i\<close>
  \<^verbatim>\<open>undefined\<close>. On the typed array a read outside the array gives \<^verbatim>\<open>undefined\<close> and a
  write there is ignored, while \<^verbatim>\<open>visited[undefined] = 1\<close> creates the property
  \<^verbatim>\<open>"undefined"\<close> on the array object: the second component of the state says whether
  that property is set.
\<close>

type_synonym visited = "(nat \<Rightarrow> bool) \<times> bool"

definition at_index :: "nat list \<Rightarrow> nat option \<Rightarrow> nat option" where
  "at_index arr i = (case i of None \<Rightarrow> None | Some k \<Rightarrow> if k < length arr then Some (arr ! k) else None)"

definition is_visited :: "nat list \<Rightarrow> visited \<Rightarrow> nat option \<Rightarrow> bool" where
  "is_visited arr st i = (case i of None \<Rightarrow> snd st | Some k \<Rightarrow> k < length arr \<and> fst st k)"

definition mark_visited :: "nat list \<Rightarrow> visited \<Rightarrow> nat option \<Rightarrow> visited" where
  "mark_visited arr st i =
     (case i of None \<Rightarrow> (fst st, True)
      | Some k \<Rightarrow> (if k < length arr then ((fst st)(k := True), snd st) else st))"

text \<open>What is left to visit: the flags of the array that are 0, and the extra property.\<close>

definition unvisited :: "nat list \<Rightarrow> visited \<Rightarrow> nat" where
  "unvisited arr st = card {k. k < length arr \<and> \<not> fst st k} + (if snd st then 0 else 1)"

lemma unvisited_mark:
  assumes "k < length arr" and "\<not> fst st k"
  shows "unvisited arr (mark_visited arr st (Some k)) < unvisited arr st"
proof -
  have "{j. j < length arr \<and> \<not> ((fst st)(k := True)) j} = {j. j < length arr \<and> \<not> fst st j} - {k}"
    by auto
  moreover have "k \<in> {j. j < length arr \<and> \<not> fst st j}" using assms by simp
  moreover have "finite {j. j < length arr \<and> \<not> fst st j}" by simp
  ultimately have "card {j. j < length arr \<and> \<not> ((fst st)(k := True)) j}
        < card {j. j < length arr \<and> \<not> fst st j}"
    by (metis card_Diff1_less)
  then show ?thesis using assms by (simp add: unvisited_def mark_visited_def)
qed

function traverseCycle :: "nat list \<Rightarrow> visited \<Rightarrow> nat option \<Rightarrow> nat \<Rightarrow> nat \<times> visited" where
  "traverseCycle arr st i cycleLength =
     (if is_visited arr st i then (cycleLength, st)
      else traverseCycle arr (mark_visited arr st i) (at_index arr i) (cycleLength + 1))"
  by pat_completeness auto
termination
proof (relation "measure (\<lambda>(arr, st, i, cl).
         2 * unvisited arr st
         + (case i of None \<Rightarrow> 0 | Some k \<Rightarrow> if k < length arr then 0 else 1))",
       goal_cases)
  case 1
  show ?case by simp
next
  case (2 arr st i cycleLength)
  show ?case
  proof (cases i)
    case None
    then show ?thesis using 2
      by (simp add: is_visited_def mark_visited_def at_index_def unvisited_def)
  next
    case (Some k)
    show ?thesis
    proof (cases "k < length arr")
      case True
      then have "\<not> fst st k" using 2 Some by (simp add: is_visited_def)
      then have "unvisited arr (mark_visited arr st (Some k)) < unvisited arr st"
        using unvisited_mark True by blast
      then show ?thesis using Some True
        by (simp add: at_index_def split: option.splits)
    next
      case False
      then show ?thesis using Some
        by (simp add: mark_visited_def at_index_def)
    qed
  qed
qed

declare traverseCycle.simps [simp del]

function parity_loop :: "nat list \<Rightarrow> nat \<Rightarrow> nat \<Rightarrow> visited \<Rightarrow> nat" where
  "parity_loop arr i evenLengthCycleCount st =
     (if i < length arr
      then (if is_visited arr st (Some i) then parity_loop arr (i + 1) evenLengthCycleCount st
            else (case traverseCycle arr st (Some i) 0 of
                    (cycleLength, st') \<Rightarrow>
                      parity_loop arr (i + 1) (evenLengthCycleCount + (1 - cycleLength mod 2)) st'))
      else evenLengthCycleCount)"
  by pat_completeness auto
termination
  by (relation "measure (\<lambda>(arr, i, c, st). length arr - i)") auto

declare parity_loop.simps [simp del]

definition parityOfPermutation :: "nat list \<Rightarrow> int" where
  "parityOfPermutation arr =
     (if parity_loop arr 0 0 (\<lambda>k. False, False) mod 2 \<noteq> 0 then - 1 else 1)"

text \<open>
  The sign of a permutation, written as the list of its values: 1 when the number of
  inversions (pairs of positions whose values are in decreasing order) is even, and -1
  when it is odd.
\<close>

definition isPermutation :: "nat list \<Rightarrow> bool" where
  "isPermutation arr = (distinct arr \<and> list_all (\<lambda>x. x < length arr) arr)"

fun inversions :: "nat list \<Rightarrow> nat" where
  "inversions [] = 0"
| "inversions (x # xs) = length (filter (\<lambda>y. y < x) xs) + inversions xs"

definition sign :: "nat list \<Rightarrow> int" where
  "sign xs = (if even (inversions xs) then 1 else - 1)"

definition cross :: "nat list \<Rightarrow> nat list \<Rightarrow> nat" where
  "cross xs ys = sum_list (map (\<lambda>x. length (filter (\<lambda>y. y < x) ys)) xs)"

definition closed_part :: "nat list \<Rightarrow> (nat \<Rightarrow> bool) \<Rightarrow> nat list" where
  "closed_part arr vis = map (\<lambda>j. if vis j then arr ! j else j) [0..<length arr]"

definition open_part :: "nat list \<Rightarrow> (nat \<Rightarrow> bool) \<Rightarrow> nat \<Rightarrow> nat \<Rightarrow> nat list" where
  "open_part arr vis prev i0 =
     map (\<lambda>j. if vis j then (if j = prev then i0 else arr ! j) else j) [0..<length arr]"

definition visitedSet :: "nat list \<Rightarrow> (nat \<Rightarrow> bool) \<Rightarrow> nat set" where
  "visitedSet arr vis = {k. k < length arr \<and> vis k}"

definition traversed :: "nat list \<Rightarrow> (nat \<Rightarrow> bool) \<Rightarrow> nat \<Rightarrow> nat \<Rightarrow> nat \<Rightarrow> nat \<times> visited \<Rightarrow> bool" where
  "traversed arr vis prev i0 cl r =
     (case r of (cl', (vis', u')) \<Rightarrow>
        cl \<le> cl' \<and> (\<forall>j. vis j \<longrightarrow> vis' j)
        \<and> nth arr ` visitedSet arr vis' = visitedSet arr vis'
        \<and> distinct (closed_part arr vis')
        \<and> even (inversions (closed_part arr vis'))
            = (even (inversions (open_part arr vis prev i0)) = even (cl' - cl)))"

text \<open>
  A permutation reached from the identity by \<open>k\<close> transpositions (exchanges of two
  entries): its number of inversions is even exactly when \<open>k\<close> is.
\<close>

inductive transpositions :: "nat \<Rightarrow> nat list \<Rightarrow> bool" where
  identity: "transpositions 0 [0..<n]"
| exchange: "transpositions k xs \<Longrightarrow> a < length xs \<Longrightarrow> b < length xs \<Longrightarrow> a \<noteq> b \<Longrightarrow>
             transpositions (Suc k) (xs[a := xs ! b, b := xs ! a])"

section \<open>Properties of ThemeManager\<close>

lemma toUpperCase_n: "toUpperCase ''n'' = ''N''"
  by code_simp

lemma toUpperCase_o: "toUpperCase ''o'' = ''O''"
  by code_simp

text \<open>
  C10. For a loaded theme (the manager's theme is defined) and every key string of ASCII
  characters, \<^verbatim>\<open>getColor\<close> does not throw; it returns the theme's entry for the
  upper-cased key when the key is not empty and that entry exists, and the theme's entry
  for \<^verbatim>\<open>C\<close> otherwise (unknown key or empty key).
\<close>

theorem getColor_spec:
  assumes "theme tm = Some t" and "isAscii key"
  shows "getColor tm key =
           Inr (if key \<noteq> [] \<and> toUpperCase key \<in> dom t then t (toUpperCase key) else t ''C'')"
  using assms by (simp add: getColor_def dom_def)

theorem getColor_spec_witness:
  "theme (ThemeManager_new [''light'' \<mapsto> [''C'' \<mapsto> ''#222'', ''N'' \<mapsto> ''#3498db'']] ''light'')
     = Some [''C'' \<mapsto> ''#222'', ''N'' \<mapsto> ''#3498db'']
   \<and> isAscii ''n'' \<and> isAscii ''o''
   \<and> getColor (ThemeManager_new [''light'' \<mapsto> [''C'' \<mapsto> ''#222'', ''N'' \<mapsto> ''#3498db'']] ''light'') ''n''
     = Inr (Some ''#3498db'')
   \<and> getColor (ThemeManager_new [''light'' \<mapsto> [''C'' \<mapsto> ''#222'', ''N'' \<mapsto> ''#3498db'']] ''light'') ''o''
     = Inr (Some ''#222'')"
proof -
  let ?tm = "ThemeManager_new [''light'' \<mapsto> [''C'' \<mapsto> ''#222'', ''N'' \<mapsto> ''#3498db'']] ''light''"
  have h: "theme ?tm = Some [''C'' \<mapsto> ''#222'', ''N'' \<mapsto> ''#3498db'']"
    by (simp add: ThemeManager_new_def)
  have n: "isAscii ''n''" and o: "isAscii ''o''"
    by (simp_all add: isAscii_def)
  show ?thesis
    using h n o getColor_spec [OF h n] getColor_spec [OF h o]
    by (simp add: toUpperCase_n toUpperCase_o)
qed

text \<open>
  A manager whose theme name is neither among the colours nor an inherited name has no
  theme, and the read throws. Under an inherited name the theme is defined and has no
  entry: the result is \<^verbatim>\<open>undefined\<close>.
\<close>

lemma getColor_unloaded: "theme tm = None \<Longrightarrow> getColor tm key = Inl TypeError"
  by (simp add: getColor_def)

lemma ThemeManager_new_unknown:
  "cs name = None \<Longrightarrow> name \<notin> set inheritedNames \<Longrightarrow>
   getColor (ThemeManager_new cs name) key = Inl TypeError"
  by (simp add: getColor_def ThemeManager_new_def)

lemma ThemeManager_new_inherited:
  "cs name = None \<Longrightarrow> name \<in> set inheritedNames \<Longrightarrow>
   getColor (ThemeManager_new cs name) key = Inr None"
  by (simp add: getColor_def ThemeManager_new_def)

section \<open>Properties of RingConnection\<close>

lemma isBridge_loop_spec:
  "\<forall>v\<in>set ids. v < length vs \<Longrightarrow>
   isBridge_loop ids vs = Inr (\<exists>v\<in>set ids. length (rings (vertex_value (vs ! v))) > 2)"
  by (induction ids) auto

text \<open>The constructor keeps the set free of duplicates and collects the common members.\<close>

lemma distinct_addVertex_rc:
  "distinct (rc_vertices rc) \<Longrightarrow> distinct (rc_vertices (addVertex_rc rc v))"
  by (simp add: addVertex_rc_def)

lemma distinct_inner:
  "distinct (rc_vertices rc) \<Longrightarrow>
   distinct (rc_vertices (fold (\<lambda>d rc'. if c = d then addVertex_rc rc' c else rc') ds rc))"
  by (induction ds arbitrary: rc) (auto simp: distinct_addVertex_rc)

lemma distinct_outer:
  "distinct (rc_vertices rc) \<Longrightarrow>
   distinct (rc_vertices
     (fold (\<lambda>c rc. fold (\<lambda>d rc'. if c = d then addVertex_rc rc' c else rc') ds rc) cs rc))"
  by (induction cs arbitrary: rc) (auto simp: distinct_inner)

lemma RingConnection_new_distinct: "distinct (rc_vertices (RingConnection_new r1 r2))"
  unfolding RingConnection_new_def by (rule distinct_outer) simp

lemma set_inner:
  "set (rc_vertices (fold (\<lambda>d rc'. if c = d then addVertex_rc rc' c else rc') ds rc))
    = set (rc_vertices rc) \<union> (if c \<in> set ds then {c} else {})"
  by (induction ds arbitrary: rc) (auto simp: addVertex_rc_def)

lemma set_outer:
  "set (rc_vertices
     (fold (\<lambda>c rc. fold (\<lambda>d rc'. if c = d then addVertex_rc rc' c else rc') ds rc) cs rc))
    = set (rc_vertices rc) \<union> (set cs \<inter> set ds)"
  by (induction cs arbitrary: rc) (auto simp: set_inner)

lemma RingConnection_new_set:
  "set (rc_vertices (RingConnection_new r1 r2)) = set (members r1) \<inter> set (members r2)"
  unfolding RingConnection_new_def by (simp add: set_outer)

text \<open>
  C1. For a ring connection (its shared-vertex set has no duplicates) and a vertex
  array that holds every shared vertex, \<^verbatim>\<open>isBridge(vertices)\<close> returns, without
  throwing, \<^verbatim>\<open>true\<close> if and only if the shared-vertex set has more than two members or
  some shared vertex has an atom whose \<^verbatim>\<open>rings\<close> list has more than two entries, and
  \<^verbatim>\<open>false\<close> otherwise.
\<close>

theorem isBridge_spec:
  assumes "distinct (rc_vertices rc)"
    and "\<forall>v\<in>set (rc_vertices rc). v < length vs"
  shows "isBridge rc vs =
           Inr (card (set (rc_vertices rc)) > 2
                \<or> (\<exists>v\<in>set (rc_vertices rc). length (rings (vertex_value (vs ! v))) > 2))"
  using assms by (simp add: isBridge_def isBridge_loop_spec distinct_card)

theorem isBridge_spec_witness:
  "distinct (rc_vertices (RingConnection_new \<lparr>id_ring = Some 0, members = [0, 1, 2]\<rparr>
                                             \<lparr>id_ring = Some 1, members = [1, 2, 3]\<rparr>))
   \<and> list_all (\<lambda>v. v < length (map example_vertex [[0], [0, 1, 2], [0, 1], [1]]))
        (rc_vertices (RingConnection_new \<lparr>id_ring = Some 0, members = [0, 1, 2]\<rparr>
                                         \<lparr>id_ring = Some 1, members = [1, 2, 3]\<rparr>))
   \<and> isBridge (RingConnection_new \<lparr>id_ring = Some 0, members = [0, 1, 2]\<rparr>
                                  \<lparr>id_ring = Some 1, members = [1, 2, 3]\<rparr>)
        (map example_vertex [[0], [0, 1, 2], [0, 1], [1]]) = Inr True
   \<and> isBridge (RingConnection_new \<lparr>id_ring = Some 0, members = [0, 1, 2]\<rparr>
                                  \<lparr>id_ring = Some 1, members = [1, 2, 3]\<rparr>)
        (map example_vertex [[0], [0, 1], [0, 1], [1]]) = Inr False"
proof -
  let ?rc = "RingConnection_new \<lparr>id_ring = Some 0, members = [0, 1, 2]\<rparr>
                                \<lparr>id_ring = Some 1, members = [1, 2, 3]\<rparr>"
  have rc: "rc_vertices ?rc = [1, 2]"
    by (simp add: RingConnection_new_def addVertex_rc_def)
  show ?thesis
    using isBridge_spec [of ?rc "map example_vertex [[0], [0, 1, 2], [0, 1], [1]]"]
      isBridge_spec [of ?rc "map example_vertex [[0], [0, 1], [0, 1], [1]]"]
    unfolding rc by (simp add: example_vertex_def)
qed

text \<open>Outside the array the read throws, unless an earlier member already decided.\<close>

lemma isBridge_out_of_range:
  "isBridge \<lparr>id_rc = None, firstRingId = Some 0, secondRingId = Some 1, rc_vertices = [7]\<rparr> [] = Inl TypeError"
  by (simp add: isBridge_def)

section \<open>Properties of the Atom constructor\<close>

lemma toUpperChar_fixed: "(toUpperChar c = c) = (\<not> isLowerChar c)"
proof (cases "isLowerChar c")
  case True
  then have "(of_char c :: nat) - 32 < 256"
    unfolding isLowerChar_def by linarith
  then have "(of_char (toUpperChar c) :: nat) = of_char c - 32"
    using True by (simp add: toUpperChar_def)
  moreover have "(of_char c :: nat) - 32 \<noteq> of_char c"
    using True unfolding isLowerChar_def by linarith
  ultimately show ?thesis using True by metis
next
  case False
  then show ?thesis by (simp add: toUpperChar_def)
qed

lemma toUpperCase_single: "length s = 1 \<Longrightarrow> (s \<noteq> toUpperCase s) = list_all isLowerChar s"
proof -
  assume "length s = 1"
  then obtain c where s: "s = [c]" by (cases s) auto
  show ?thesis using toUpperChar_fixed[of c] by (auto simp: s toUpperCase_def)
qed

lemma aromatic_flag:
  "Atom.isPartOfAromaticRing (Atom_new el bt) = (length el = 1 \<and> lowerCaseNotation el)"
proof (cases "length el = 1")
  case True
  then have "el \<noteq> []" by auto
  then show ?thesis using True toUpperCase_single[OF True]
    by (simp add: Atom_new_def Let_def lowerCaseNotation_def)
next
  case False
  then show ?thesis by (simp add: Atom_new_def Let_def)
qed

text \<open>
  C7, as the code has it. For an ASCII element string the constructor stores the
  upper-cased string when the string has length 1 and the string itself otherwise, and
  sets \<^verbatim>\<open>isPartOfAromaticRing\<close> exactly when the supplied string differs from the stored
  one, that is exactly when the string is a single lower-case letter. So every atom of a
  list of atoms (the members of a ring) built by the constructor is flagged exactly when
  every one of them was supplied as a single lower-case letter.
\<close>

theorem Atom_new_aromatic:
  assumes "isAscii el" and "list_all isAscii els"
  shows "Atom.element (Atom_new el bt) = (if length el = 1 then toUpperCase el else el)
       \<and> Atom.isPartOfAromaticRing (Atom_new el bt) = (el \<noteq> Atom.element (Atom_new el bt))
       \<and> Atom.isPartOfAromaticRing (Atom_new el bt) = (length el = 1 \<and> lowerCaseNotation el)
       \<and> list_all (\<lambda>e. Atom.isPartOfAromaticRing (Atom_new e bt)) els
           = list_all (\<lambda>e. length e = 1 \<and> lowerCaseNotation e) els"
proof -
  have "Atom.element (Atom_new el bt) = (if length el = 1 then toUpperCase el else el)"
    by (simp add: Atom_new_def Let_def)
  moreover have "Atom.isPartOfAromaticRing (Atom_new el bt) = (el \<noteq> Atom.element (Atom_new el bt))"
    by (simp add: Atom_new_def Let_def)
  ultimately show ?thesis by (simp add: aromatic_flag)
qed

lemma toUpperCase_c: "toUpperCase ''c'' = ''C''"
  by code_simp

theorem Atom_new_aromatic_witness:
  "isAscii ''c'' \<and> list_all isAscii [''c'', ''n'', ''C'']
   \<and> Atom.element (Atom_new ''c'' ''-'') = ''C''
   \<and> Atom.isPartOfAromaticRing (Atom_new ''c'' ''-'')
   \<and> \<not> list_all (\<lambda>e. Atom.isPartOfAromaticRing (Atom_new e ''-'')) [''c'', ''n'', ''C'']"
proof -
  have a: "isAscii ''c''" by (simp add: isAscii_def)
  have b: "list_all isAscii [''c'', ''n'', ''C'']" by (simp add: isAscii_def)
  have l: "lowerCaseNotation ''c''" "lowerCaseNotation ''n''" "\<not> lowerCaseNotation ''C''"
    by (simp_all add: lowerCaseNotation_def isLowerChar_def)
  show ?thesis
    using a b Atom_new_aromatic [OF a b, of "''-''"] l
    by (simp add: toUpperCase_c)
qed

text \<open>
  The claim as stated fails on a two-letter symbol: \<^verbatim>\<open>se\<close> (aromatic selenium) is
  written in lower-case notation, and the constructor neither upper-cases it nor flags
  the atom.
\<close>

theorem Atom_new_two_letter_counterexample:
  "lowerCaseNotation ''se'' \<and> \<not> Atom.isPartOfAromaticRing (Atom_new ''se'' ''-'')
   \<and> Atom.element (Atom_new ''se'' ''-'') = ''se''"
  by (simp add: lowerCaseNotation_def isLowerChar_def Atom_new_def Let_def)

section \<open>The effect of one call of the builder\<close>

lemma update_vertex_fields [simp]:
  "vertices (update_vertex i f g) = (vertices g)[i := f (vertices g ! i)]"
  "edges (update_vertex i f g) = edges g"
  "atomIdx (update_vertex i f g) = atomIdx g"
  "atomIdxToVertexId (update_vertex i f g) = atomIdxToVertexId g"
  "vertexIdsToEdgeId (update_vertex i f g) = vertexIdsToEdgeId g"
  "isomeric (update_vertex i f g) = isomeric g"
  "time (update_vertex i f g) = time g"
  by (simp_all add: update_vertex_def)

lemma connect_vertices:
  assumes "vertices g = vs @ [v]" and "p < length vs"
  shows "vertices (connect p (length vs) isBranch g) =
     vs[p := linked_parent (length vs) (element (vertex_value v)) (vs ! p)]
           @ [addNeighbouringElement (element (vertex_value (vs ! p))) (setParentVertexId p v)]"
  using assms
  by (simp add: connect_def Let_def addEdge_def nth_append list_update_append linked_parent_def
      addNeighbouringElement_def setParentVertexId_def)

lemma connect_edges:
  assumes "vertices g = vs @ [v]" and "p < length vs"
  shows "edges (connect p (length vs) isBranch g) =
     edges g @ [\<lparr>id_edge = length (edges g), sourceId = p, targetId = length vs, weight = 1,
          bondType = (if isBranch then or_dash (branchBond (vertex_value v))
                  else or_dash (Some (atom_literal.bondType (vertex_value (vs ! p))))),
          isPartOfAromaticRing = False\<rparr>]"
  using assms
  by (simp add: connect_def Let_def addEdge_def nth_append list_update_append
      addNeighbouringElement_def setParentVertexId_def setBondType_literal_def
      push_spanningTreeChildren_def addChild_def)

lemma connect_other:
  "atomIdx (connect p vid isBranch g) = atomIdx g"
  "atomIdxToVertexId (connect p vid isBranch g) = atomIdxToVertexId g"
  "vertexIdsToEdgeId (connect p vid isBranch g) = vertexIdsToEdgeId g"
  "isomeric (connect p vid isBranch g) = isomeric g"
  "time (connect p vid isBranch g) = time g"
  by (simp_all add: connect_def Let_def addEdge_def)

lemma idx_new_atom: "(idx (new_atom node parentId k) \<noteq> None) = has_idx node parentId"
  by (simp add: new_atom_def has_idx_def)

lemma init_vertex_eq:
  "init_vertex node parentId isBranch g =
     (case parentId of
        None \<Rightarrow> Inr (indexed_graph node parentId g, length (vertices g))
      | Some p \<Rightarrow> (if p < length (vertices g)
                   then Inr (connect p (length (vertices g)) isBranch (indexed_graph node parentId g),
                             length (vertices g))
                   else Inl TypeError))"
  unfolding init_vertex_def Let_def idx_new_atom addVertex_def indexed_graph_def added_vertex_def
  by (cases "has_idx node parentId") (simp_all split: option.splits)

lemma indexed_graph_fields:
  "vertices (indexed_graph node parentId g) = vertices g @ [added_vertex node parentId g]"
  "edges (indexed_graph node parentId g) = edges g"
  "atomIdx (indexed_graph node parentId g) = (if has_idx node parentId then atomIdx g + 1 else atomIdx g)"
  "atomIdxToVertexId (indexed_graph node parentId g) =
     (if has_idx node parentId then atomIdxToVertexId g @ [length (vertices g)] else atomIdxToVertexId g)"
  "isomeric (indexed_graph node parentId g) = isomeric g"
  by (simp_all add: indexed_graph_def Let_def)

lemmas vertices_indexed_graph = indexed_graph_fields(1)

lemma visit_Some_fields:
  assumes "visit node (Some p) isBranch g = Inr (g', vid)" and "p < length (vertices g)"
  shows "vid = length (vertices g)"
    and "vertices g' = (vertices g)[p := linked_parent (length (vertices g)) (element_of (atom node)) (vertices g ! p)]
                @ [created_vertex node (Some p) g]"
    and "edges g' = edges g @ [created_edge node p isBranch g]"
    and "atomIdx g' = (if has_idx node (Some p) then atomIdx g + 1 else atomIdx g)"
    and "atomIdxToVertexId g' = (if has_idx node (Some p) then atomIdxToVertexId g @ [length (vertices g)]
                                  else atomIdxToVertexId g)"
    and "isomeric g' = isomeric g"
proof -
  let ?G = "indexed_graph node (Some p) g"
  let ?n = "length (vertices g)"
  let ?C = "connect p ?n isBranch ?G"
  have g': "g' = (if isStereo node then update_vertex ?n markStereoCenter ?C else ?C)" and v: "vid = ?n"
    using assms by (auto simp: visit_def init_vertex_eq)
  show "vid = ?n" by (rule v)
  have cv: "vertices ?C = (vertices g)[p := linked_parent ?n (element (vertex_value (added_vertex node (Some p) g))) (vertices g ! p)]
           @ [addNeighbouringElement (element (vertex_value (vertices g ! p))) (setParentVertexId p (added_vertex node (Some p) g))]"
    by (rule connect_vertices[OF vertices_indexed_graph assms(2)])
  have el: "element (vertex_value (added_vertex node (Some p) g)) = element_of (atom node)"
    by (simp add: added_vertex_def createVertex_def new_atom_def)
  have nv: "addNeighbouringElement (element (vertex_value (vertices g ! p))) (setParentVertexId p (added_vertex node (Some p) g))
        = (created_vertex node (Some p) g)\<lparr>vertex_value := (vertex_value (created_vertex node (Some p) g))\<lparr>isStereoCenter := False\<rparr>\<rparr>"
    by (simp add: addNeighbouringElement_def setParentVertexId_def added_vertex_def createVertex_def
        created_vertex_def new_atom_def)
  show "vertices g' = (vertices g)[p := linked_parent ?n (element_of (atom node)) (vertices g ! p)]
                @ [created_vertex node (Some p) g]"
    unfolding g' using assms(2)
    by (simp add: cv el nv nth_append list_update_append markStereoCenter_def created_vertex_def new_atom_def)
  have ce: "edges ?C = edges ?G @ [\<lparr>id_edge = length (edges ?G), sourceId = p, targetId = ?n, weight = 1,
          bondType = (if isBranch then or_dash (branchBond (vertex_value (added_vertex node (Some p) g)))
                  else or_dash (Some (atom_literal.bondType (vertex_value (vertices g ! p))))),
          isPartOfAromaticRing = False\<rparr>]"
    by (rule connect_edges[OF vertices_indexed_graph assms(2)])
  show "edges g' = edges g @ [created_edge node p isBranch g]"
    unfolding g' by (simp add: ce indexed_graph_fields created_edge_def added_vertex_def createVertex_def new_atom_def)
  show "atomIdx g' = (if has_idx node (Some p) then atomIdx g + 1 else atomIdx g)"
    unfolding g' by (simp add: connect_other indexed_graph_fields)
  show "atomIdxToVertexId g' = (if has_idx node (Some p) then atomIdxToVertexId g @ [length (vertices g)]
                                  else atomIdxToVertexId g)"
    unfolding g' by (simp add: connect_other indexed_graph_fields)
  show "isomeric g' = isomeric g"
    unfolding g' by (simp add: connect_other indexed_graph_fields)
qed

lemma visit_Some_fails: "\<not> p < length (vertices g) \<Longrightarrow> visit node (Some p) isBranch g = Inl TypeError"
  by (simp add: visit_def init_vertex_eq)

lemma visit_Some_succeeds:
  "p < length (vertices g) \<Longrightarrow> \<exists>g'. visit node (Some p) isBranch g = Inr (g', length (vertices g))"
  by (simp add: visit_def init_vertex_eq)

lemma visit_None_fields:
  assumes "visit node None isBranch g = Inr (g', vid)"
  shows "vid = length (vertices g)"
    and "vertices g' = vertices g @ [created_vertex node None g]"
    and "edges g' = edges g"
    and "atomIdx g' = (if has_idx node None then atomIdx g + 1 else atomIdx g)"
    and "atomIdxToVertexId g' = (if has_idx node None then atomIdxToVertexId g @ [length (vertices g)]
                                  else atomIdxToVertexId g)"
    and "isomeric g' = isomeric g"
proof -
  let ?G = "indexed_graph node None g"
  let ?n = "length (vertices g)"
  have g': "g' = (if isStereo node then update_vertex ?n markStereoCenter ?G else ?G)" and v: "vid = ?n"
    using assms by (auto simp: visit_def init_vertex_eq)
  show "vid = ?n" by (rule v)
  show "vertices g' = vertices g @ [created_vertex node None g]"
    unfolding g'
    by (simp add: vertices_indexed_graph markStereoCenter_def created_vertex_def added_vertex_def
        createVertex_def new_atom_def)
  show "edges g' = edges g" unfolding g' by (simp add: indexed_graph_fields)
  show "atomIdx g' = (if has_idx node None then atomIdx g + 1 else atomIdx g)"
    unfolding g' by (simp add: indexed_graph_fields)
  show "atomIdxToVertexId g' = (if has_idx node None then atomIdxToVertexId g @ [length (vertices g)]
                                  else atomIdxToVertexId g)"
    unfolding g' by (simp add: indexed_graph_fields)
  show "isomeric g' = isomeric g"
    unfolding g' by (simp add: indexed_graph_fields)
qed

lemma visit_None_succeeds: "\<exists>g'. visit node None isBranch g = Inr (g', length (vertices g))"
  by (simp add: visit_def init_vertex_eq)

lemma init_unfold:
  "init node order parentId isBranch g =
     (case visit node parentId isBranch g of
        Inl e \<Rightarrow> Inl e
      | Inr (g1, vid) \<Rightarrow>
          (case (if isStereo node then init_stereo 0 (stereoHydrogens_of node) vid g1 else Inr g1) of
             Inl e \<Rightarrow> Inl e
           | Inr g2 \<Rightarrow>
               (case init_branches (branches node) 0 (branchCount node) (offset_of node) vid g2 of
                  Inl e \<Rightarrow> Inl e
                | Inr g3 \<Rightarrow>
                    (if hasNext node
                     then (case next_node node of
                             None \<Rightarrow> Inl TypeError
                           | Some nx \<Rightarrow> init nx (branchCount node + offset_of node) (Some vid) False g3)
                     else Inr g3))))"
proof (cases "init_vertex node parentId isBranch g")
  case (Inl e)
  then show ?thesis by (subst init.simps) (simp add: visit_def)
next
  case (Inr b)
  obtain x y where b: "b = (x, y)" by (cases b)
  show ?thesis
    by (subst init.simps) (simp add: visit_def Inr b)
qed

lemma init_cases:
  assumes "init node order parentId isBranch g = Inr g'"
  obtains g1 vid g2 g3 where
    "visit node parentId isBranch g = Inr (g1, vid)"
    "if isStereo node then init_stereo 0 (stereoHydrogens_of node) vid g1 = Inr g2 else g2 = g1"
    "init_branches (branches node) 0 (branchCount node) (offset_of node) vid g2 = Inr g3"
    "if hasNext node
     then (\<exists>nx. next_node node = Some nx
            \<and> init nx (branchCount node + offset_of node) (Some vid) False g3 = Inr g')
     else g' = g3"
proof (cases "visit node parentId isBranch g")
  case (Inl e)
  then show ?thesis using assms by (simp add: init_unfold)
next
  case (Inr b)
  obtain g1 vid where b: "b = (g1, vid)" by (cases b)
  let ?s = "if isStereo node then init_stereo 0 (stereoHydrogens_of node) vid g1 else Inr g1"
  show ?thesis
  proof (cases ?s)
    case (Inl e)
    then show ?thesis using assms Inr b by (simp add: init_unfold)
  next
    case s: (Inr g2)
    let ?b = "init_branches (branches node) 0 (branchCount node) (offset_of node) vid g2"
    show ?thesis
    proof (cases ?b)
      case (Inl e)
      then show ?thesis using assms Inr b s by (simp add: init_unfold)
    next
      case br: (Inr g3)
      have 1: "visit node parentId isBranch g = Inr (g1, vid)" using Inr b by simp
      have 2: "if isStereo node then init_stereo 0 (stereoHydrogens_of node) vid g1 = Inr g2 else g2 = g1"
        using s by (simp split: if_splits)
      have 4: "if hasNext node
           then (\<exists>nx. next_node node = Some nx
            \<and> init nx (branchCount node + offset_of node) (Some vid) False g3 = Inr g')
           else g' = g3"
        using assms Inr b s br by (simp add: init_unfold split: if_splits option.splits)
      show ?thesis using that[OF 1 2 br 4] .
    qed
  qed
qed

lemma visit_length:
  assumes "visit node parentId isBranch g = Inr (g1, vid)"
  shows "vid = length (vertices g)" and "length (vertices g1) = Suc (length (vertices g))"
proof -
  show "vid = length (vertices g)"
    using assms by (auto simp: visit_def init_vertex_eq split: option.splits if_splits)
  show "length (vertices g1) = Suc (length (vertices g))"
  proof (cases parentId)
    case None
    then show ?thesis using visit_None_fields(2)[of node isBranch g g1 vid] assms by simp
  next
    case (Some p)
    then have "p < length (vertices g)"
      using assms visit_Some_fails[of p g node isBranch] by (cases "p < length (vertices g)") auto
    then show ?thesis using visit_Some_fields(2)[of node p isBranch g g1 vid] assms Some by simp
  qed
qed

lemma init_invariant_aux:
  fixes I :: "Graph \<Rightarrow> bool"
  assumes step: "\<And>node p isBranch g g' vid.
      visit node (Some p) isBranch g = Inr (g', vid) \<Longrightarrow> p < length (vertices g) \<Longrightarrow> I g \<Longrightarrow> I g'"
  shows "\<forall>g'. init node order parentId isBranch g = Inr g' \<longrightarrow>
           (\<exists>p. parentId = Some p \<and> p < length (vertices g)) \<longrightarrow> I g \<longrightarrow>
           I g' \<and> length (vertices g) \<le> length (vertices g')"
    and "\<forall>g'. init_stereo i n vid g = Inr g' \<longrightarrow> vid < length (vertices g) \<longrightarrow> I g \<longrightarrow>
           I g' \<and> length (vertices g) \<le> length (vertices g')"
    and "\<forall>g'. init_branches bs j m offset vid' h = Inr g' \<longrightarrow> vid' < length (vertices h) \<longrightarrow> I h \<longrightarrow>
           I g' \<and> length (vertices h) \<le> length (vertices g')"
proof (induction node order parentId isBranch g and i n vid g and bs j m offset vid' h
       rule: init_init_stereo_init_branches.induct)
  case (1 node order parentId isBranch g)
  show ?case
  proof (intro allI impI)
    fix g'
    assume run: "init node order parentId isBranch g = Inr g'"
      and par: "\<exists>p. parentId = Some p \<and> p < length (vertices g)"
      and inv: "I g"
    from run obtain g1 vid g2 g3 where
      v: "visit node parentId isBranch g = Inr (g1, vid)"
      and s: "if isStereo node then init_stereo 0 (stereoHydrogens_of node) vid g1 = Inr g2 else g2 = g1"
      and b: "init_branches (branches node) 0 (branchCount node) (offset_of node) vid g2 = Inr g3"
      and n: "if hasNext node
               then (\<exists>nx. next_node node = Some nx
                      \<and> init nx (branchCount node + offset_of node) (Some vid) False g3 = Inr g')
               else g' = g3"
      by (rule init_cases)
    from par obtain p where p: "parentId = Some p" "p < length (vertices g)" by blast
    have I1: "I g1" using step v p inv by blast
    have vid: "vid = length (vertices g)" and len1: "length (vertices g1) = Suc (length (vertices g))"
      using visit_length[OF v] by auto
    obtain x where iv: "init_vertex node parentId isBranch g = Inr (x, vid)"
      and g1: "g1 = (if isStereo node then update_vertex vid markStereoCenter x else x)"
      using v by (auto simp: visit_def split: sum.splits prod.splits)
    have I2: "I g2 \<and> length (vertices g1) \<le> length (vertices g2)"
    proof (cases "isStereo node")
      case True
      then have "init_stereo 0 (stereoHydrogens_of node) vid (update_vertex vid markStereoCenter x) = Inr g2"
        using s g1 by simp
      moreover have "vid < length (vertices (update_vertex vid markStereoCenter x))"
        using len1 vid g1 True by simp
      moreover have "I (update_vertex vid markStereoCenter x)" using I1 g1 True by simp
      ultimately show ?thesis using "1.IH"(1)[OF iv refl True] g1 True by auto
    next
      case False
      then show ?thesis using s I1 by simp
    qed
    have s': "(if isStereo node
            then init_stereo 0 (stereoHydrogens_of node) vid (update_vertex vid markStereoCenter x)
            else Inr x) = Inr g2"
      using s g1 by (auto split: if_splits)
    have I3: "I g3 \<and> length (vertices g2) \<le> length (vertices g3)"
      using "1.IH"(2)[OF iv refl s'] b I2 len1 vid by auto
    show "I g' \<and> length (vertices g) \<le> length (vertices g')"
    proof (cases "hasNext node")
      case True
      then obtain nx where nx: "next_node node = Some nx"
        and r: "init nx (branchCount node + offset_of node) (Some vid) False g3 = Inr g'"
        using n by auto
      have "vid < length (vertices g3)" using I2 I3 len1 vid by linarith
      then have "I g' \<and> length (vertices g3) \<le> length (vertices g')"
        using "1.IH"(3)[OF iv refl s' b True nx] r I3 by auto
      then show ?thesis using I2 I3 len1 by linarith
    next
      case False
      then show ?thesis using n I2 I3 len1 by auto
    qed
  qed
next
  case (2 i stereoHydrogens vid g)
  show ?case
  proof (intro allI impI)
    fix g'
    assume run: "init_stereo i stereoHydrogens vid g = Inr g'"
      and vid: "vid < length (vertices g)" and inv: "I g"
    show "I g' \<and> length (vertices g) \<le> length (vertices g')"
    proof (cases "i < stereoHydrogens")
      case True
      then obtain g1 where a: "init hydrogen i (Some vid) True g = Inr g1"
        and b: "init_stereo (i + 1) stereoHydrogens vid g1 = Inr g'"
        using run by (subst (asm) init_stereo.simps) (auto split: sum.splits)
      have 1: "I g1 \<and> length (vertices g) \<le> length (vertices g1)"
        using "2.IH"(1)[OF True] a vid inv by auto
      then have "I g' \<and> length (vertices g1) \<le> length (vertices g')"
        using "2.IH"(2)[OF True a] b vid by auto
      then show ?thesis using 1 by linarith
    next
      case False
      then show ?thesis using run inv by (subst (asm) init_stereo.simps) simp
    qed
  qed
next
  case (3 bs i n offset vid g)
  show ?case
  proof (intro allI impI)
    fix g'
    assume run: "init_branches bs i n offset vid g = Inr g'"
      and vid: "vid < length (vertices g)" and inv: "I g"
    show "I g' \<and> length (vertices g) \<le> length (vertices g')"
    proof (cases "i < n")
      case True
      then have il: "i < length bs"
        using run by (subst (asm) init_branches.simps) (auto split: if_splits)
      obtain g1 where a: "init (bs ! i) (i + offset) (Some vid) True g = Inr g1"
        and b: "init_branches bs (i + 1) n offset vid g1 = Inr g'"
        using run True il by (subst (asm) init_branches.simps) (auto split: sum.splits)
      have 1: "I g1 \<and> length (vertices g) \<le> length (vertices g1)"
        using "3.IH"(1)[OF True il] a vid inv by auto
      then have "I g' \<and> length (vertices g1) \<le> length (vertices g')"
        using "3.IH"(2)[OF True il a] b vid by auto
      then show ?thesis using 1 by linarith
    next
      case False
      then show ?thesis using run inv by (subst (asm) init_branches.simps) simp
    qed
  qed
qed

lemmas init_invariant = init_invariant_aux(1)[rule_format]

lemmas init_stereo_invariant = init_invariant_aux(2)[rule_format]

lemmas init_branches_invariant = init_invariant_aux(3)[rule_format]

lemma Graph_new_invariant:
  fixes I :: "Graph \<Rightarrow> bool"
  assumes root: "\<And>g1. visit tree None False (empty_graph isom) = Inr (g1, 0) \<Longrightarrow> I g1"
    and step: "\<And>node p isBranch g g' vid.
      visit node (Some p) isBranch g = Inr (g', vid) \<Longrightarrow> p < length (vertices g) \<Longrightarrow> I g \<Longrightarrow> I g'"
    and run: "Graph_new tree isom = Inr g"
  shows "I g"
proof -
  let ?g0 = "empty_graph isom"
  from run have "init tree 0 None False ?g0 = Inr g" by (simp add: Graph_new_def)
  then obtain g1 vid g2 g3 where
    v: "visit tree None False ?g0 = Inr (g1, vid)"
    and s: "if isStereo tree then init_stereo 0 (stereoHydrogens_of tree) vid g1 = Inr g2 else g2 = g1"
    and b: "init_branches (branches tree) 0 (branchCount tree) (offset_of tree) vid g2 = Inr g3"
    and n: "if hasNext tree
             then (\<exists>nx. next_node tree = Some nx
                    \<and> init nx (branchCount tree + offset_of tree) (Some vid) False g3 = Inr g)
             else g = g3"
    by (rule init_cases)
  have vid: "vid = 0" and len1: "length (vertices g1) = 1"
    using visit_length[OF v] by (simp_all add: empty_graph_def)
  have I1: "I g1" using root v vid by simp
  have I2: "I g2 \<and> length (vertices g1) \<le> length (vertices g2)"
  proof (cases "isStereo tree")
    case True
    then have r: "init_stereo 0 (stereoHydrogens_of tree) vid g1 = Inr g2" using s by simp
    have "vid < length (vertices g1)" using len1 vid by simp
    then show ?thesis using init_stereo_invariant[where I = I, OF step r _ I1] by simp
  next
    case False
    then show ?thesis using s I1 by simp
  qed
  have "vid < length (vertices g2)" using I2 len1 vid by (simp add: Suc_le_eq)
  then have I3: "I g3 \<and> length (vertices g2) \<le> length (vertices g3)"
    using init_branches_invariant[where I = I, OF step b] I2 by simp
  show "I g"
  proof (cases "hasNext tree")
    case True
    then obtain nx where r: "init nx (branchCount tree + offset_of tree) (Some vid) False g3 = Inr g"
      using n by auto
    have "vid < length (vertices g3)" using I2 I3 len1 vid by linarith
    then show ?thesis using init_invariant[where I = I, OF step r] I3 by simp
  next
    case False
    then show ?thesis using n I3 by simp
  qed
qed

lemma linked_parent_simps [simp]:
  "id_vertex (linked_parent n e v) = id_vertex v"
  "parentVertexId (linked_parent n e v) = parentVertexId v"
  "spanningTreeChildren (linked_parent n e v) = spanningTreeChildren v @ [n]"
  "neighbours (linked_parent n e v) = neighbours v @ [n]"
  "idx (vertex_value (linked_parent n e v)) = idx (vertex_value v)"
  "element (vertex_value (linked_parent n e v)) = element (vertex_value v)"
  "bracket (vertex_value (linked_parent n e v)) = bracket (vertex_value v)"
  "isStereoCenter (vertex_value (linked_parent n e v)) = isStereoCenter (vertex_value v)"
  by (simp_all add: linked_parent_def push_spanningTreeChildren_def addNeighbouringElement_def
      addChild_def)

lemma created_vertex_simps [simp]:
  "id_vertex (created_vertex node parentId g) = length (vertices g)"
  "parentVertexId (created_vertex node parentId g) = parentId"
  "spanningTreeChildren (created_vertex node parentId g) = []"
  "neighbours (created_vertex node parentId g) = []"
  "idx (vertex_value (created_vertex node parentId g)) = (if has_idx node parentId then Some (atomIdx g) else None)"
  "element (vertex_value (created_vertex node parentId g)) = element_of (atom node)"
  "bracket (vertex_value (created_vertex node parentId g)) = bracket_of (atom node)"
  "isStereoCenter (vertex_value (created_vertex node parentId g)) = isStereo node"
  by (simp_all add: created_vertex_def new_atom_def has_idx_def)

lemma tree_inv_step:
  assumes v: "visit node (Some p) isBranch g = Inr (g', vid)" and p: "p < length (vertices g)"
    and inv: "tree_inv g"
  shows "tree_inv g'"
proof -
  let ?vs = "vertices g"
  let ?n = "length ?vs"
  have vs': "vertices g' = ?vs[p := linked_parent ?n (element_of (atom node)) (?vs ! p)]
                @ [created_vertex node (Some p) g]"
    by (rule visit_Some_fields(2)[OF v p])
  show ?thesis
    unfolding tree_inv_def
  proof (intro allI impI)
    fix i assume "i < length (vertices g')"
    then have i: "i < ?n \<or> i = ?n" by (auto simp: vs')
    show "id_vertex (vertices g' ! i) = i
        \<and> (case parentVertexId (vertices g' ! i) of
             None \<Rightarrow> i = 0
           | Some q \<Rightarrow> q < i \<and> i \<in> set (spanningTreeChildren (vertices g' ! q))
                        \<and> i \<in> set (neighbours (vertices g' ! q)))"
    proof (cases "i = ?n")
      case True
      then show ?thesis using p by (simp add: vs' nth_append)
    next
      case False
      then have lt: "i < ?n" using i by simp
      have old: "id_vertex (?vs ! i) = i
        \<and> (case parentVertexId (?vs ! i) of
             None \<Rightarrow> i = 0
           | Some q \<Rightarrow> q < i \<and> i \<in> set (spanningTreeChildren (?vs ! q))
                        \<and> i \<in> set (neighbours (?vs ! q)))"
        using inv lt by (simp add: tree_inv_def)
      show ?thesis
      proof (cases "parentVertexId (?vs ! i)")
        case None
        then show ?thesis using old lt p by (auto simp: vs' nth_append nth_list_update)
      next
        case (Some q)
        then have "q < i" using old by simp
        then have "q < ?n" using lt by simp
        then show ?thesis using old lt Some p by (simp add: vs' nth_append nth_list_update)
      qed
    qed
  qed
qed

lemma tree_inv_root:
  assumes "visit tree None False (empty_graph isom) = Inr (g1, 0)"
  shows "tree_inv g1"
  using visit_None_fields(2)[OF assms] by (simp add: tree_inv_def empty_graph_def)

lemma Graph_new_tree_inv: "Graph_new tree isom = Inr g \<Longrightarrow> tree_inv g"
  by (rule Graph_new_invariant[where I = tree_inv and tree = tree and isom = isom])
     (auto intro: tree_inv_root tree_inv_step)

lemma climb_root:
  "tree_inv g \<Longrightarrow> i < length (vertices g) \<Longrightarrow> i \<le> k \<Longrightarrow> climb g k i = 0"
proof (induction k arbitrary: i)
  case 0
  then show ?case by simp
next
  case (Suc k)
  show ?case
  proof (cases "parentVertexId (vertices g ! i)")
    case None
    then show ?thesis using Suc.prems by (auto simp: tree_inv_def)
  next
    case (Some p)
    then have "p < i" using Suc.prems by (auto simp: tree_inv_def)
    then show ?thesis using Suc Some by simp
  qed
qed

lemma wellFormed_sel:
  "wellFormed node =
     (branchCount node = length (branches node) \<and> hasNext node = (next_node node \<noteq> None)
      \<and> (case atom node of Simple s \<Rightarrow> True | Bracket br \<Rightarrow> bracket_element br \<noteq> [])
      \<and> list_all wellFormed (branches node)
      \<and> (case next_node node of None \<Rightarrow> True | Some n \<Rightarrow> wellFormed n))"
  by (cases node) simp

lemma atomNodes_sel:
  "atomNodes node =
     1 + sum_list (map atomNodes (branches node))
       + (case next_node node of None \<Rightarrow> 0 | Some n \<Rightarrow> atomNodes n)"
  by (cases node) simp

lemma stereoHydrogenTotal_sel:
  "stereoHydrogenTotal node =
     chiralHydrogens (atom node) + sum_list (map stereoHydrogenTotal (branches node))
       + (case next_node node of None \<Rightarrow> 0 | Some n \<Rightarrow> stereoHydrogenTotal n)"
  by (cases node) simp

lemma chiralHydrogens_stereo:
  "wellFormed node \<Longrightarrow>
   chiralHydrogens (atom node) = (if isStereo node then stereoHydrogens_of node else 0)"
  by (cases node; cases "atom node") (auto simp: isStereo_def stereoHydrogens_of_def)

lemma wellFormed_hydrogen: "wellFormed hydrogen"
  by (simp add: hydrogen_def)

lemma totals_hydrogen: "atomNodes hydrogen = 1" "stereoHydrogenTotal hydrogen = 0"
  by (simp_all add: hydrogen_def)

lemma init_Inr_I:
  assumes "visit node parentId isBranch g = Inr (g1, vid)"
    and "if isStereo node then init_stereo 0 (stereoHydrogens_of node) vid g1 = Inr g2 else g2 = g1"
    and "init_branches (branches node) 0 (branchCount node) (offset_of node) vid g2 = Inr g3"
    and "if hasNext node
     then (\<exists>nx. next_node node = Some nx
            \<and> init nx (branchCount node + offset_of node) (Some vid) False g3 = Inr g')
     else g' = g3"
  shows "init node order parentId isBranch g = Inr g'"
  using assms by (auto simp: init_unfold split: if_splits)

lemma visit_succeeds:
  assumes "parentId = None \<or> (\<exists>p. parentId = Some p \<and> p < length (vertices g))"
  shows "\<exists>g1. visit node parentId isBranch g = Inr (g1, length (vertices g))"
  using assms visit_None_succeeds visit_Some_succeeds by auto

lemma visit_init_vertex:
  assumes "visit node parentId isBranch g = Inr (g1, vid)"
  obtains x where "init_vertex node parentId isBranch g = Inr (x, vid)"
    and "g1 = (if isStereo node then update_vertex vid markStereoCenter x else x)"
  using assms by (auto simp: visit_def split: sum.splits prod.splits)

lemma subtotal_sel:
  "wellFormed node \<Longrightarrow>
   subtotal node = 1 + (if isStereo node then stereoHydrogens_of node else 0)
     + sum_list (map subtotal (branches node))
     + (case next_node node of None \<Rightarrow> 0 | Some n \<Rightarrow> subtotal n)"
proof -
  assume wf: "wellFormed node"
  have sums: "sum_list (map subtotal bs)
      = sum_list (map atomNodes bs) + sum_list (map stereoHydrogenTotal bs)" for bs
    by (induction bs) (simp_all add: subtotal_def)
  show ?thesis
    using chiralHydrogens_stereo[OF wf] sums[of "branches node"]
    by (subst subtotal_def, subst atomNodes_sel, subst stereoHydrogenTotal_sel)
       (simp add: subtotal_def split: option.splits)
qed

lemma init_total_aux:
  shows "wellFormed node \<longrightarrow>
           (parentId = None \<or> (\<exists>p. parentId = Some p \<and> p < length (vertices g))) \<longrightarrow>
           (\<exists>g'. init node order parentId isBranch g = Inr g'
                 \<and> length (vertices g') = length (vertices g) + subtotal node)"
    and "vid < length (vertices g) \<longrightarrow>
           (\<exists>g'. init_stereo i n vid g = Inr g'
                 \<and> length (vertices g') = length (vertices g) + (n - i))"
    and "list_all wellFormed bs \<longrightarrow> m = length bs \<longrightarrow> vid' < length (vertices h) \<longrightarrow>
           (\<exists>g'. init_branches bs j m offset vid' h = Inr g'
                 \<and> length (vertices g') = length (vertices h) + sum_list (map subtotal (drop j bs)))"
proof (induction node order parentId isBranch g and i n vid g and bs j m offset vid' h
       rule: init_init_stereo_init_branches.induct)
  case (1 node order parentId isBranch g)
  show ?case
  proof (intro impI)
    assume wf: "wellFormed node"
      and par: "parentId = None \<or> (\<exists>p. parentId = Some p \<and> p < length (vertices g))"
    let ?n = "length (vertices g)"
    obtain g1 where v: "visit node parentId isBranch g = Inr (g1, ?n)"
      using visit_succeeds[OF par] by blast
    have len1: "length (vertices g1) = Suc ?n" using visit_length(2)[OF v] .
    obtain x where iv: "init_vertex node parentId isBranch g = Inr (x, ?n)"
      and g1: "g1 = (if isStereo node then update_vertex ?n markStereoCenter x else x)"
      using v by (rule visit_init_vertex)
    have "\<exists>g2. (if isStereo node then init_stereo 0 (stereoHydrogens_of node) ?n g1 = Inr g2 else g2 = g1)
            \<and> length (vertices g2) = length (vertices g1) + (if isStereo node then stereoHydrogens_of node else 0)"
    proof (cases "isStereo node")
      case True
      have "?n < length (vertices (update_vertex ?n markStereoCenter x))"
        using len1 g1 True by simp
      then show ?thesis using "1.IH"(1)[OF iv refl True] g1 True by auto
    next
      case False
      then show ?thesis by simp
    qed
    then obtain g2 where
      s: "if isStereo node then init_stereo 0 (stereoHydrogens_of node) ?n g1 = Inr g2 else g2 = g1"
      and len2: "length (vertices g2) = length (vertices g1) + (if isStereo node then stereoHydrogens_of node else 0)"
      by blast
    have s': "(if isStereo node
            then init_stereo 0 (stereoHydrogens_of node) ?n (update_vertex ?n markStereoCenter x)
            else Inr x) = Inr g2"
      using s g1 by (auto split: if_splits)
    have wfb: "list_all wellFormed (branches node)" and bc: "branchCount node = length (branches node)"
      and hn: "hasNext node = (next_node node \<noteq> None)"
      and wfn: "case next_node node of None \<Rightarrow> True | Some n \<Rightarrow> wellFormed n"
      using wf by (subst (asm) wellFormed_sel, simp)+
    have "?n < length (vertices g2)" using len1 len2 by simp
    then obtain g3 where
      b: "init_branches (branches node) 0 (branchCount node) (offset_of node) ?n g2 = Inr g3"
      and len3: "length (vertices g3) = length (vertices g2) + sum_list (map subtotal (branches node))"
      using "1.IH"(2)[OF iv refl s'] wfb bc by auto
    have "\<exists>g'. (if hasNext node
             then (\<exists>nx. next_node node = Some nx
                    \<and> init nx (branchCount node + offset_of node) (Some ?n) False g3 = Inr g')
             else g' = g3)
          \<and> length (vertices g') = length (vertices g3)
               + (case next_node node of None \<Rightarrow> 0 | Some n \<Rightarrow> subtotal n)"
    proof (cases "hasNext node")
      case True
      then obtain nx where nx: "next_node node = Some nx" using hn by auto
      then have "wellFormed nx" using wfn by simp
      moreover have "?n < length (vertices g3)" using len1 len2 len3 by simp
      ultimately show ?thesis using "1.IH"(3)[OF iv refl s' b True nx] True nx by auto
    next
      case False
      then show ?thesis using hn by simp
    qed
    then obtain g' where
      n: "if hasNext node
             then (\<exists>nx. next_node node = Some nx
                    \<and> init nx (branchCount node + offset_of node) (Some ?n) False g3 = Inr g')
             else g' = g3"
      and len4: "length (vertices g') = length (vertices g3)
               + (case next_node node of None \<Rightarrow> 0 | Some n \<Rightarrow> subtotal n)"
      by blast
    have "init node order parentId isBranch g = Inr g'"
      by (rule init_Inr_I[OF v s b n])
    moreover have "length (vertices g') = ?n + subtotal node"
      using len1 len2 len3 len4 by (simp add: subtotal_sel[OF wf])
    ultimately show "\<exists>g'. init node order parentId isBranch g = Inr g'
                 \<and> length (vertices g') = length (vertices g) + subtotal node"
      by blast
  qed
next
  case (2 i stereoHydrogens vid g)
  show ?case
  proof (intro impI)
    assume vid: "vid < length (vertices g)"
    show "\<exists>g'. init_stereo i stereoHydrogens vid g = Inr g'
                 \<and> length (vertices g') = length (vertices g) + (stereoHydrogens - i)"
    proof (cases "i < stereoHydrogens")
      case True
      obtain g1 where a: "init hydrogen i (Some vid) True g = Inr g1"
        and l1: "length (vertices g1) = length (vertices g) + 1"
        using "2.IH"(1)[OF True] vid wellFormed_hydrogen
        by (auto simp: subtotal_def totals_hydrogen)
      have "vid < length (vertices g1)" using vid l1 by simp
      then obtain g' where b: "init_stereo (i + 1) stereoHydrogens vid g1 = Inr g'"
        and l2: "length (vertices g') = length (vertices g1) + (stereoHydrogens - (i + 1))"
        using "2.IH"(2)[OF True a] by auto
      have "init_stereo i stereoHydrogens vid g = Inr g'"
        using True a b by (subst init_stereo.simps) simp
      then show ?thesis using l1 l2 True by auto
    next
      case False
      then show ?thesis by (subst init_stereo.simps) simp
    qed
  qed
next
  case (3 bs i n offset vid g)
  show ?case
  proof (intro impI)
    assume wf: "list_all wellFormed bs" and n: "n = length bs" and vid: "vid < length (vertices g)"
    show "\<exists>g'. init_branches bs i n offset vid g = Inr g'
                 \<and> length (vertices g') = length (vertices g) + sum_list (map subtotal (drop i bs))"
    proof (cases "i < n")
      case True
      then have il: "i < length bs" using n by simp
      then have "wellFormed (bs ! i)" using wf by (simp add: list_all_length)
      then obtain g1 where a: "init (bs ! i) (i + offset) (Some vid) True g = Inr g1"
        and l1: "length (vertices g1) = length (vertices g) + subtotal (bs ! i)"
        using "3.IH"(1)[OF True il] vid by auto
      have "vid < length (vertices g1)" using vid l1 by simp
      then obtain g' where b: "init_branches bs (i + 1) n offset vid g1 = Inr g'"
        and l2: "length (vertices g') = length (vertices g1) + sum_list (map subtotal (drop (i + 1) bs))"
        using "3.IH"(2)[OF True il a] wf n by auto
      have "init_branches bs i n offset vid g = Inr g'"
        using True il a b by (subst init_branches.simps) simp
      moreover have "drop i bs = bs ! i # drop (i + 1) bs"
        using il by (simp add: Cons_nth_drop_Suc)
      ultimately show ?thesis using l1 l2 by auto
    next
      case False
      then show ?thesis using n by (subst init_branches.simps) simp
    qed
  qed
qed

lemma Graph_new_total:
  assumes "wellFormed tree"
  shows "\<exists>g. Graph_new tree isom = Inr g
           \<and> length (vertices g) = atomNodes tree + stereoHydrogenTotal tree"
  using init_total_aux(1)[of tree None "empty_graph isom" 0 False] assms
  by (simp add: Graph_new_def subtotal_def empty_graph_def)

lemma same_core_refl: "same_core v v"
  by (simp add: same_core_def)

lemma same_core_trans: "same_core v v' \<Longrightarrow> same_core v' v'' \<Longrightarrow> same_core v v''"
  unfolding same_core_def by auto

lemma same_core_linked_parent: "same_core v (linked_parent n e v)"
  by (auto simp: same_core_def)

lemma stable_refl: "stable g g"
  by (simp add: stable_def same_core_refl)

lemma stable_trans:
  assumes a: "stable g g'" and b: "stable g' g''"
  shows "stable g g''"
proof -
  have l: "length (vertices g) \<le> length (vertices g'')"
    using a b by (simp add: stable_def)
  have "same_core (vertices g ! i) (vertices g'' ! i)" if i: "i < length (vertices g)" for i
  proof -
    have i': "i < length (vertices g')" using a i by (simp add: stable_def)
    have "same_core (vertices g ! i) (vertices g' ! i)" using a i by (simp add: stable_def)
    moreover have "same_core (vertices g' ! i) (vertices g'' ! i)" using b i' by (simp add: stable_def)
    ultimately show ?thesis by (rule same_core_trans)
  qed
  then show ?thesis using l by (simp add: stable_def)
qed

lemma stable_visit:
  assumes v: "visit node (Some p) isBranch g = Inr (g', vid)" and p: "p < length (vertices g)"
  shows "stable g g'"
proof -
  let ?vs = "vertices g"
  have vs': "vertices g' = ?vs[p := linked_parent (length ?vs) (element_of (atom node)) (?vs ! p)]
                @ [created_vertex node (Some p) g]"
    by (rule visit_Some_fields(2)[OF v p])
  have "same_core (?vs ! i) (vertices g' ! i)" if i: "i < length ?vs" for i
  proof (cases "i = p")
    case True
    then show ?thesis using i by (simp add: vs' nth_append same_core_linked_parent)
  next
    case False
    then show ?thesis using i by (simp add: vs' nth_append same_core_refl)
  qed
  then show ?thesis by (simp add: stable_def vs')
qed

lemma init_stable:
  "init node order (Some p) isBranch g = Inr g' \<Longrightarrow> p < length (vertices g) \<Longrightarrow> stable g g'"
  using init_invariant[where I = "stable g" and g = g and g' = g' and node = node
      and parentId = "Some p" and isBranch = isBranch and order = order]
  by (auto intro: stable_refl stable_trans stable_visit)

lemma init_stereo_stable:
  "init_stereo i n vid g = Inr g' \<Longrightarrow> vid < length (vertices g) \<Longrightarrow> stable g g'"
  using init_stereo_invariant[where I = "stable g" and g = g and g' = g' and i = i and n = n and vid = vid]
  by (auto intro: stable_refl stable_trans stable_visit)

lemma init_branches_stable:
  "init_branches bs j m offset vid h = Inr g' \<Longrightarrow> vid < length (vertices h) \<Longrightarrow> stable h g'"
  using init_branches_invariant[where I = "stable h" and h = h and g' = g' and bs = bs and j = j
      and m = m and offset = offset and vid' = vid]
  by (auto intro: stable_refl stable_trans stable_visit)

lemma hydrogen_child_stable:
  assumes st: "stable g g'" and h: "hydrogen_child g i j"
  shows "hydrogen_child g' i j"
proof -
  have j: "j < length (vertices g)" and i: "i < length (vertices g)" and ij: "i < j"
    using h by (auto simp: hydrogen_child_def)
  have cj: "same_core (vertices g ! j) (vertices g' ! j)" using st j by (simp add: stable_def)
  have ci: "same_core (vertices g ! i) (vertices g' ! i)" using st i by (simp add: stable_def)
  have "j < length (vertices g')" using st j by (simp add: stable_def)
  moreover have "j \<in> set (spanningTreeChildren (vertices g' ! i))"
    using ci h by (auto simp: same_core_def hydrogen_child_def)
  ultimately show ?thesis
    using cj h ij by (simp add: same_core_def hydrogen_child_def)
qed

lemma stereo_done_stable:
  assumes st: "stable g g'" and i: "i < length (vertices g)" and d: "stereo_done g i"
  shows "stereo_done g' i"
proof -
  have ci: "same_core (vertices g ! i) (vertices g' ! i)" using st i by (simp add: stable_def)
  then have eq: "isStereoCenter (vertex_value (vertices g' ! i)) = isStereoCenter (vertex_value (vertices g ! i))"
    "bracket (vertex_value (vertices g' ! i)) = bracket (vertex_value (vertices g ! i))"
    by (simp_all add: same_core_def)
  show ?thesis
    unfolding stereo_done_def eq
    using d hydrogen_child_stable[OF st] by (simp add: stereo_done_def)
qed

lemma init_branches_done: "\<not> i < n \<Longrightarrow> init_branches bs i n offset vid g = Inr g"
  by (subst init_branches.simps) simp

lemma init_hydrogen:
  assumes "init hydrogen i (Some vid) True g = Inr g1"
  shows "visit hydrogen (Some vid) True g = Inr (g1, length (vertices g))"
proof -
  from assms obtain h1 v h2 h3 where
    a: "visit hydrogen (Some vid) True g = Inr (h1, v)"
    and b: "if isStereo hydrogen then init_stereo 0 (stereoHydrogens_of hydrogen) v h1 = Inr h2 else h2 = h1"
    and c: "init_branches (branches hydrogen) 0 (branchCount hydrogen) (offset_of hydrogen) v h2 = Inr h3"
    and d: "if hasNext hydrogen
             then (\<exists>nx. next_node hydrogen = Some nx
                    \<and> init nx (branchCount hydrogen + offset_of hydrogen) (Some v) False h3 = Inr g1)
             else g1 = h3"
    by (rule init_cases)
  have "h2 = h1" using b hydrogen_not_stereo by simp
  moreover have "h3 = h2" using c by (simp add: hydrogen_def init_branches_done)
  moreover have "g1 = h3" using d by (simp add: hydrogen_def)
  moreover have "v = length (vertices g)" using visit_length(1)[OF a] .
  ultimately show ?thesis using a by simp
qed

lemma hydrogen_child_created:
  assumes v: "visit hydrogen (Some vid) True g = Inr (g1, n)" and p: "vid < length (vertices g)"
  shows "hydrogen_child g1 vid (length (vertices g))"
proof -
  let ?vs = "vertices g"
  have vs': "vertices g1 = ?vs[vid := linked_parent (length ?vs) (element_of (atom hydrogen)) (?vs ! vid)]
                @ [created_vertex hydrogen (Some vid) g]"
    by (rule visit_Some_fields(2)[OF v p])
  show ?thesis
    unfolding hydrogen_child_def vs'
    using p by (simp add: nth_append hydrogen_def has_idx_def)
qed

lemma stereo_aux:
  shows "\<forall>g'. init node order parentId isBranch g = Inr g' \<longrightarrow>
           (parentId = None \<or> (\<exists>p. parentId = Some p \<and> p < length (vertices g))) \<longrightarrow>
           (\<forall>j. length (vertices g) \<le> j \<and> j < length (vertices g') \<longrightarrow> stereo_done g' j)"
    and "\<forall>g'. init_stereo i n vid g = Inr g' \<longrightarrow> vid < length (vertices g) \<longrightarrow>
           (\<forall>k<n - i. hydrogen_child g' vid (length (vertices g) + k))
           \<and> (\<forall>j. length (vertices g) \<le> j \<and> j < length (vertices g') \<longrightarrow> stereo_done g' j)"
    and "\<forall>g'. init_branches bs j' m offset vid' h = Inr g' \<longrightarrow> vid' < length (vertices h) \<longrightarrow>
           (\<forall>j. length (vertices h) \<le> j \<and> j < length (vertices g') \<longrightarrow> stereo_done g' j)"
proof (induction node order parentId isBranch g and i n vid g and bs j' m offset vid' h
       rule: init_init_stereo_init_branches.induct)
  case (1 node order parentId isBranch g)
  show ?case
  proof (intro allI impI)
    fix g' j
    assume run: "init node order parentId isBranch g = Inr g'"
      and par: "parentId = None \<or> (\<exists>p. parentId = Some p \<and> p < length (vertices g))"
      and j: "length (vertices g) \<le> j \<and> j < length (vertices g')"
    let ?n = "length (vertices g)"
    from run obtain g1 vid g2 g3 where
      v: "visit node parentId isBranch g = Inr (g1, vid)"
      and s: "if isStereo node then init_stereo 0 (stereoHydrogens_of node) vid g1 = Inr g2 else g2 = g1"
      and b: "init_branches (branches node) 0 (branchCount node) (offset_of node) vid g2 = Inr g3"
      and n: "if hasNext node
               then (\<exists>nx. next_node node = Some nx
                      \<and> init nx (branchCount node + offset_of node) (Some vid) False g3 = Inr g')
               else g' = g3"
      by (rule init_cases)
    have vid: "vid = ?n" and len1: "length (vertices g1) = Suc ?n"
      using visit_length[OF v] by auto
    obtain x where iv: "init_vertex node parentId isBranch g = Inr (x, vid)"
      and g1: "g1 = (if isStereo node then update_vertex vid markStereoCenter x else x)"
      using v by (rule visit_init_vertex)
    have last1: "vertices g1 ! ?n = created_vertex node parentId g"
    proof (cases parentId)
      case None
      then show ?thesis using visit_None_fields(2)[of node isBranch g g1 vid] v by simp
    next
      case (Some p)
      then have p: "p < ?n" using par by simp
      show ?thesis using visit_Some_fields(2)[of node p isBranch g g1 vid] v Some p
        by (simp add: nth_append)
    qed
    have s': "(if isStereo node
            then init_stereo 0 (stereoHydrogens_of node) vid (update_vertex vid markStereoCenter x)
            else Inr x) = Inr g2"
      using s g1 by (auto split: if_splits)
    have st12: "stable g1 g2"
    proof (cases "isStereo node")
      case True
      then show ?thesis using s init_stereo_stable[of 0 _ vid g1 g2] len1 vid by simp
    next
      case False
      then show ?thesis using s by (simp add: stable_refl)
    qed
    have l12: "length (vertices g1) \<le> length (vertices g2)" using st12 by (simp add: stable_def)
    have vlt2: "vid < length (vertices g2)" using l12 len1 vid by simp
    have st23: "stable g2 g3" using init_branches_stable[OF b vlt2] .
    have l23: "length (vertices g2) \<le> length (vertices g3)" using st23 by (simp add: stable_def)
    have vlt3: "vid < length (vertices g3)" using l23 vlt2 by simp
    have st3': "stable g3 g'"
    proof (cases "hasNext node")
      case True
      then show ?thesis using n init_stable[of _ _ vid False g3 g'] vlt3 by auto
    next
      case False
      then show ?thesis using n by (simp add: stable_refl)
    qed
    have done2: "stereo_done g2 k" if k: "?n \<le> k \<and> k < length (vertices g2)" for k
    proof (cases "k = ?n")
      case True
      have core: "same_core (vertices g1 ! ?n) (vertices g2 ! ?n)"
        using st12 len1 by (simp add: stable_def)
      show ?thesis
      proof (cases "isStereo node")
        case st: True
        have r: "init_stereo 0 (stereoHydrogens_of node) vid (update_vertex vid markStereoCenter x) = Inr g2"
          using s' st by simp
        have "vid < length (vertices (update_vertex vid markStereoCenter x))"
          using len1 vid g1 st by simp
        then have "\<forall>k<stereoHydrogens_of node - 0.
             hydrogen_child g2 vid (length (vertices (update_vertex vid markStereoCenter x)) + k)"
          using "1.IH"(1)[OF iv refl st] r by blast
        then have hc: "\<forall>k<stereoHydrogens_of node. hydrogen_child g2 ?n (?n + 1 + k)"
          using len1 g1 st vid by simp
        have "bracket (vertex_value (vertices g2 ! ?n)) = bracket_of (atom node)"
          using core last1 by (simp add: same_core_def)
        then show ?thesis
          using hc True by (auto simp: stereo_done_def stereoHydrogens_of_def split: option.splits)
      next
        case False
        then have "\<not> isStereoCenter (vertex_value (vertices g2 ! ?n))"
          using core last1 by (simp add: same_core_def)
        then show ?thesis using True by (simp add: stereo_done_def)
      qed
    next
      case False
      then have k1: "length (vertices g1) \<le> k \<and> k < length (vertices g2)" using k len1 by simp
      then have st: "isStereo node" using s by (cases "isStereo node") auto
      have r: "init_stereo 0 (stereoHydrogens_of node) vid (update_vertex vid markStereoCenter x) = Inr g2"
        using s' st by simp
      have "vid < length (vertices (update_vertex vid markStereoCenter x))"
        using len1 vid g1 st by simp
      then show ?thesis using "1.IH"(1)[OF iv refl st] r k1 g1 st by auto
    qed
    have done3: "stereo_done g3 k" if k: "?n \<le> k \<and> k < length (vertices g3)" for k
    proof (cases "k < length (vertices g2)")
      case True
      then show ?thesis using stereo_done_stable[OF st23 True] done2 k by simp
    next
      case False
      then show ?thesis using "1.IH"(2)[OF iv refl s'] b vlt2 k by auto
    qed
    show "stereo_done g' j"
    proof (cases "j < length (vertices g3)")
      case True
      then show ?thesis using stereo_done_stable[OF st3' True] done3 j by simp
    next
      case False
      then have hn: "hasNext node" using n j by (cases "hasNext node") auto
      then obtain nx where nx: "next_node node = Some nx"
        and r: "init nx (branchCount node + offset_of node) (Some vid) False g3 = Inr g'"
        using n by auto
      show ?thesis using "1.IH"(3)[OF iv refl s' b hn nx] r vlt3 False j by auto
    qed
  qed
next
  case (2 i stereoHydrogens vid g)
  show ?case
  proof (intro allI impI)
    fix g'
    assume run: "init_stereo i stereoHydrogens vid g = Inr g'"
      and vid: "vid < length (vertices g)"
    let ?n = "length (vertices g)"
    show "(\<forall>k<stereoHydrogens - i. hydrogen_child g' vid (?n + k))
           \<and> (\<forall>j. ?n \<le> j \<and> j < length (vertices g') \<longrightarrow> stereo_done g' j)"
    proof (cases "i < stereoHydrogens")
      case True
      then obtain g1 where a: "init hydrogen i (Some vid) True g = Inr g1"
        and b: "init_stereo (i + 1) stereoHydrogens vid g1 = Inr g'"
        using run by (subst (asm) init_stereo.simps) (auto split: sum.splits)
      have v: "visit hydrogen (Some vid) True g = Inr (g1, ?n)" using init_hydrogen[OF a] .
      have len1: "length (vertices g1) = Suc ?n" using visit_length(2)[OF v] .
      have h0: "hydrogen_child g1 vid ?n" using hydrogen_child_created[OF v vid] .
      have vlt1: "vid < length (vertices g1)" using vid len1 by simp
      have st: "stable g1 g'" using init_stereo_stable[OF b vlt1] .
      have d1: "\<forall>j. ?n \<le> j \<and> j < length (vertices g1) \<longrightarrow> stereo_done g1 j"
        using "2.IH"(1)[OF True] a vid by blast
      have rest: "(\<forall>k<stereoHydrogens - (i + 1). hydrogen_child g' vid (length (vertices g1) + k))
           \<and> (\<forall>j. length (vertices g1) \<le> j \<and> j < length (vertices g') \<longrightarrow> stereo_done g' j)"
        using "2.IH"(2)[OF True a] b vlt1 by blast
      have "hydrogen_child g' vid (?n + k)" if k: "k < stereoHydrogens - i" for k
      proof (cases k)
        case 0
        then show ?thesis using hydrogen_child_stable[OF st h0] by simp
      next
        case (Suc k')
        then have "k' < stereoHydrogens - (i + 1)" using k by simp
        then show ?thesis using rest Suc len1 by auto
      qed
      moreover have "stereo_done g' j" if j: "?n \<le> j \<and> j < length (vertices g')" for j
      proof (cases "j < length (vertices g1)")
        case True
        then show ?thesis using stereo_done_stable[OF st True] d1 j by simp
      next
        case False
        then show ?thesis using rest j by auto
      qed
      ultimately show ?thesis by blast
    next
      case False
      then have "g' = g" using run by (subst (asm) init_stereo.simps) simp
      then show ?thesis using False by auto
    qed
  qed
next
  case (3 bs i n offset vid g)
  show ?case
  proof (intro allI impI)
    fix g' j
    assume run: "init_branches bs i n offset vid g = Inr g'"
      and vid: "vid < length (vertices g)"
      and j: "length (vertices g) \<le> j \<and> j < length (vertices g')"
    show "stereo_done g' j"
    proof (cases "i < n")
      case True
      then have il: "i < length bs"
        using run by (subst (asm) init_branches.simps) (auto split: if_splits)
      obtain g1 where a: "init (bs ! i) (i + offset) (Some vid) True g = Inr g1"
        and b: "init_branches bs (i + 1) n offset vid g1 = Inr g'"
        using run True il by (subst (asm) init_branches.simps) (auto split: sum.splits)
      have st01: "stable g g1" using init_stable[OF a vid] .
      have vlt1: "vid < length (vertices g1)" using st01 vid by (simp add: stable_def)
      have st: "stable g1 g'" using init_branches_stable[OF b vlt1] .
      show ?thesis
      proof (cases "j < length (vertices g1)")
        case lt: True
        have "stereo_done g1 j" using "3.IH"(1)[OF True il] a vid j lt by blast
        then show ?thesis using stereo_done_stable[OF st lt] by simp
      next
        case False
        then show ?thesis using "3.IH"(2)[OF True il a] b vlt1 j by auto
      qed
    next
      case False
      then have "g' = g" using run by (subst (asm) init_branches.simps) simp
      then show ?thesis using j by auto
    qed
  qed
qed

lemma Graph_new_stereo_done:
  assumes "Graph_new tree isom = Inr g" and "j < length (vertices g)"
  shows "stereo_done g j"
  using stereo_aux(1)[of tree 0 None False "empty_graph isom"] assms
  by (simp add: Graph_new_def empty_graph_def)

lemma map_filter_update:
  "p < length xs \<Longrightarrow> P w = P (xs ! p) \<Longrightarrow> f w = f (xs ! p) \<Longrightarrow>
   map f (filter P (xs[p := w])) = map f (filter P xs)"
proof (induction xs arbitrary: p)
  case Nil
  then show ?case by simp
next
  case (Cons x xs)
  then show ?case by (cases p) auto
qed

lemma in_set_update:
  assumes "v \<in> set (xs[p := w])" and "p < length xs"
  shows "v = w \<or> v \<in> set xs"
  using assms set_update_subset_insert[of xs p w] by auto

lemma indexed_linked_parent [simp]: "indexed (linked_parent n e v) = indexed v"
  by (simp add: indexed_def)

lemma indexed_created [simp]: "indexed (created_vertex node parentId g) = has_idx node parentId"
  by (simp add: indexed_def)

lemma idx_inv_step:
  assumes v: "visit node (Some p) isBranch g = Inr (g', vid)" and p: "p < length (vertices g)"
    and inv: "idx_inv tree g"
  shows "idx_inv tree g'"
proof -
  let ?vs = "vertices g"
  let ?w = "linked_parent (length ?vs) (element_of (atom node)) (?vs ! p)"
  let ?c = "created_vertex node (Some p) g"
  have vs': "vertices g' = ?vs[p := ?w] @ [?c]"
    by (rule visit_Some_fields(2)[OF v p])
  have ai: "atomIdx g' = (if has_idx node (Some p) then atomIdx g + 1 else atomIdx g)"
    by (rule visit_Some_fields(4)[OF v p])
  have av: "atomIdxToVertexId g' = (if has_idx node (Some p) then atomIdxToVertexId g @ [length ?vs]
                                  else atomIdxToVertexId g)"
    by (rule visit_Some_fields(5)[OF v p])
  have f1: "map (\<lambda>v. idx (vertex_value v)) (filter indexed (?vs[p := ?w]))
            = map (\<lambda>v. idx (vertex_value v)) (filter indexed ?vs)"
    by (rule map_filter_update[OF p]) simp_all
  have f2: "map id_vertex (filter indexed (?vs[p := ?w])) = map id_vertex (filter indexed ?vs)"
    by (rule map_filter_update[OF p]) simp_all
  have i1: "map (\<lambda>v. idx (vertex_value v)) (filter indexed ?vs) = map Some [0..<atomIdx g]"
    and i2: "atomIdxToVertexId g = map id_vertex (filter indexed ?vs)"
    and i3: "\<And>u. u \<in> set ?vs \<Longrightarrow>
            indexed u = (element (vertex_value u) \<noteq> Sym ''H'' \<or> (id_vertex u = 0 \<and> \<not> hasNext tree))"
    and i4: "\<And>u. u \<in> set ?vs \<Longrightarrow> id_vertex u < length ?vs"
    using inv by (simp_all add: idx_inv_def)
  have c1: "map (\<lambda>v. idx (vertex_value v)) (filter indexed (vertices g')) = map Some [0..<atomIdx g']"
    unfolding vs' ai by (simp add: f1 i1)
  have c2: "atomIdxToVertexId g' = map id_vertex (filter indexed (vertices g'))"
    unfolding vs' av by (simp add: f2 i2)
  have pin: "?vs ! p \<in> set ?vs" using p by simp
  have c3: "indexed u = (element (vertex_value u) \<noteq> Sym ''H'' \<or> (id_vertex u = 0 \<and> \<not> hasNext tree))"
    and c4: "id_vertex u < length (vertices g')"
    if u: "u \<in> set (vertices g')" for u
  proof -
    have "u = ?c \<or> u = ?w \<or> u \<in> set ?vs"
      using u in_set_update[of u ?vs p ?w] p by (auto simp: vs')
    then show "indexed u = (element (vertex_value u) \<noteq> Sym ''H'' \<or> (id_vertex u = 0 \<and> \<not> hasNext tree))"
      using i3[OF pin] i3 p by (auto simp: has_idx_def)
    show "id_vertex u < length (vertices g')"
      using \<open>u = ?c \<or> u = ?w \<or> u \<in> set ?vs\<close> i4[OF pin] i4 by (auto simp: vs' less_Suc_eq)
  qed
  show ?thesis
    unfolding idx_inv_def using c1 c2 c3 c4 by blast
qed

lemma idx_inv_root:
  assumes "visit tree None False (empty_graph isom) = Inr (g1, 0)"
  shows "idx_inv tree g1"
  unfolding idx_inv_def
    visit_None_fields(2)[OF assms] visit_None_fields(4)[OF assms] visit_None_fields(5)[OF assms]
  by (simp add: empty_graph_def has_idx_def)

lemma Graph_new_idx_inv: "Graph_new tree isom = Inr g \<Longrightarrow> idx_inv tree g"
  by (rule Graph_new_invariant[where I = "idx_inv tree" and tree = tree and isom = isom])
     (auto intro: idx_inv_root idx_inv_step)

lemma isStereo_bracket:
  "isStereo node = (case bracket_of (atom node) of None \<Rightarrow> False | Some b \<Rightarrow> hasChirality b)"
  by (simp add: isStereo_def)

lemma flag_inv_step:
  assumes v: "visit node (Some p) isBranch g = Inr (g', vid)" and p: "p < length (vertices g)"
    and inv: "flag_inv g"
  shows "flag_inv g'"
proof -
  let ?vs = "vertices g"
  let ?w = "linked_parent (length ?vs) (element_of (atom node)) (?vs ! p)"
  let ?c = "created_vertex node (Some p) g"
  have vs': "vertices g' = ?vs[p := ?w] @ [?c]"
    by (rule visit_Some_fields(2)[OF v p])
  have pin: "?vs ! p \<in> set ?vs" using p by simp
  have old: "\<And>u. u \<in> set ?vs \<Longrightarrow> isStereoCenter (vertex_value u)
          = (case bracket (vertex_value u) of None \<Rightarrow> False | Some b \<Rightarrow> hasChirality b)"
    using inv by (simp add: flag_inv_def)
  have "isStereoCenter (vertex_value u)
          = (case bracket (vertex_value u) of None \<Rightarrow> False | Some b \<Rightarrow> hasChirality b)"
    if u: "u \<in> set (vertices g')" for u
  proof -
    have "u = ?c \<or> u = ?w \<or> u \<in> set ?vs"
      using u in_set_update[of u ?vs p ?w] p by (auto simp: vs')
    then show ?thesis using old[OF pin] old by (auto simp: isStereo_bracket)
  qed
  then show ?thesis by (simp add: flag_inv_def)
qed

lemma flag_inv_root:
  assumes "visit tree None False (empty_graph isom) = Inr (g1, 0)"
  shows "flag_inv g1"
  unfolding flag_inv_def visit_None_fields(2)[OF assms]
  by (simp add: empty_graph_def isStereo_bracket)

lemma Graph_new_flag_inv: "Graph_new tree isom = Inr g \<Longrightarrow> flag_inv g"
  by (rule Graph_new_invariant[where I = flag_inv and tree = tree and isom = isom])
     (auto intro: flag_inv_root flag_inv_step)

lemma weight_inv_step:
  assumes v: "visit node (Some p) isBranch g = Inr (g', vid)" and p: "p < length (vertices g)"
    and inv: "weight_inv g"
  shows "weight_inv g'"
  using inv unfolding weight_inv_def visit_Some_fields(3)[OF v p]
  by (auto simp: created_edge_def)

lemma weight_inv_root:
  assumes "visit tree None False (empty_graph isom) = Inr (g1, 0)"
  shows "weight_inv g1"
  unfolding weight_inv_def visit_None_fields(3)[OF assms]
  by (simp add: empty_graph_def)

lemma Graph_new_weight_inv: "Graph_new tree isom = Inr g \<Longrightarrow> weight_inv g"
  by (rule Graph_new_invariant[where I = weight_inv and tree = tree and isom = isom])
     (auto intro: weight_inv_root weight_inv_step)

lemma double_bond_edges: "map_sum id edge_summary (Graph_new example_double_bond False) = Inr [(0, 1, ''='', 1)]"
  by code_simp

lemma chiral_vertices: "map_sum id vertex_summary (Graph_new example_chiral False)
   = Inr [(Sym ''C'', Some 0, None, True), (Sym ''H'', None, Some 0, False),
          (Sym ''F'', Some 1, Some 0, False), (Sym ''Cl'', Some 2, Some 0, False),
          (Sym ''Br'', Some 3, Some 0, False)]"
  by code_simp

lemma hydrogen_root_vertices: "map_sum id vertex_summary (Graph_new example_hydrogen_root False)
   = Inr [(Sym ''H'', Some 0, None, False), (Sym ''C'', Some 1, Some 0, False)]"
  by code_simp

lemma chiral_index_map: "map_sum id atomIdxToVertexId (Graph_new example_chiral False) = Inr [0, 2, 3, 4]"
  by code_simp

lemma wellFormed_example_chiral: "wellFormed example_chiral"
  by (simp add: example_chiral_def plain_atom_def)

lemma visitOrder_sel:
  "wellFormed node \<Longrightarrow>
   visitOrder node =
     element_of (atom node)
       # replicate (if isStereo node then stereoHydrogens_of node else 0) (Sym ''H'')
       @ concat (map visitOrder (branches node))
       @ (case next_node node of None \<Rightarrow> [] | Some n \<Rightarrow> visitOrder n)"
  using chiralHydrogens_stereo[of node] by (cases node) simp

lemma visitOrder_hydrogen: "visitOrder hydrogen = [Sym ''H'']"
  by (simp add: hydrogen_def)

lemma length_elements [simp]: "length (elements g) = length (vertices g)"
  by (simp add: elements_def)

lemma map_update_same: "p < length xs \<Longrightarrow> f w = f (xs ! p) \<Longrightarrow> map f (xs[p := w]) = map f xs"
  by (simp add: map_update list_update_same_conv)

lemma visit_elements:
  assumes v: "visit node parentId isBranch g = Inr (g1, vid)"
    and par: "parentId = None \<or> (\<exists>p. parentId = Some p \<and> p < length (vertices g))"
  shows "elements g1 = elements g @ [element_of (atom node)]"
proof (cases parentId)
  case None
  then show ?thesis using visit_None_fields(2)[of node isBranch g g1 vid] v
    by (simp add: elements_def)
next
  case (Some p)
  then have p: "p < length (vertices g)" using par by simp
  have "vertices g1 = (vertices g)[p := linked_parent (length (vertices g)) (element_of (atom node)) (vertices g ! p)]
                @ [created_vertex node (Some p) g]"
    using visit_Some_fields(2)[of node p isBranch g g1 vid] v Some p by simp
  then show ?thesis using p by (simp add: elements_def map_update_same)
qed

lemma init_order_aux:
  shows "\<forall>g'. init node order parentId isBranch g = Inr g' \<longrightarrow> wellFormed node \<longrightarrow>
           (parentId = None \<or> (\<exists>p. parentId = Some p \<and> p < length (vertices g))) \<longrightarrow>
           elements g' = elements g @ visitOrder node"
    and "\<forall>g'. init_stereo i n vid g = Inr g' \<longrightarrow> vid < length (vertices g) \<longrightarrow>
           elements g' = elements g @ replicate (n - i) (Sym ''H'')"
    and "\<forall>g'. init_branches bs j m offset vid' h = Inr g' \<longrightarrow> list_all wellFormed bs \<longrightarrow>
           m = length bs \<longrightarrow> vid' < length (vertices h) \<longrightarrow>
           elements g' = elements h @ concat (map visitOrder (drop j bs))"
proof (induction node order parentId isBranch g and i n vid g and bs j m offset vid' h
       rule: init_init_stereo_init_branches.induct)
  case (1 node order parentId isBranch g)
  show ?case
  proof (intro allI impI)
    fix g'
    assume run: "init node order parentId isBranch g = Inr g'" and wf: "wellFormed node"
      and par: "parentId = None \<or> (\<exists>p. parentId = Some p \<and> p < length (vertices g))"
    let ?n = "length (vertices g)"
    from run obtain g1 vid g2 g3 where
      v: "visit node parentId isBranch g = Inr (g1, vid)"
      and s: "if isStereo node then init_stereo 0 (stereoHydrogens_of node) vid g1 = Inr g2 else g2 = g1"
      and b: "init_branches (branches node) 0 (branchCount node) (offset_of node) vid g2 = Inr g3"
      and n: "if hasNext node
               then (\<exists>nx. next_node node = Some nx
                      \<and> init nx (branchCount node + offset_of node) (Some vid) False g3 = Inr g')
               else g' = g3"
      by (rule init_cases)
    have vid: "vid = ?n" and len1: "length (vertices g1) = Suc ?n"
      using visit_length[OF v] by auto
    obtain x where iv: "init_vertex node parentId isBranch g = Inr (x, vid)"
      and g1: "g1 = (if isStereo node then update_vertex vid markStereoCenter x else x)"
      using v by (rule visit_init_vertex)
    have e1: "elements g1 = elements g @ [element_of (atom node)]"
      by (rule visit_elements[OF v par])
    have s': "(if isStereo node
            then init_stereo 0 (stereoHydrogens_of node) vid (update_vertex vid markStereoCenter x)
            else Inr x) = Inr g2"
      using s g1 by (auto split: if_splits)
    have e2: "elements g2 = elements g1
                @ replicate (if isStereo node then stereoHydrogens_of node else 0) (Sym ''H'')"
    proof (cases "isStereo node")
      case True
      have "vid < length (vertices (update_vertex vid markStereoCenter x))"
        using len1 vid g1 True by simp
      then show ?thesis using "1.IH"(1)[OF iv refl True] s g1 True by auto
    next
      case False
      then show ?thesis using s by simp
    qed
    have wfb: "list_all wellFormed (branches node)" and bc: "branchCount node = length (branches node)"
      and hn: "hasNext node = (next_node node \<noteq> None)"
      and wfn: "case next_node node of None \<Rightarrow> True | Some n \<Rightarrow> wellFormed n"
      using wf by (subst (asm) wellFormed_sel, simp)+
    have "length (elements g2) = length (elements g1)
            + (if isStereo node then stereoHydrogens_of node else 0)"
      by (simp only: e2 length_append length_replicate)
    then have vlt2: "vid < length (vertices g2)" using len1 vid by simp
    have e3: "elements g3 = elements g2 @ concat (map visitOrder (branches node))"
      using "1.IH"(2)[OF iv refl s'] b wfb bc vlt2 by auto
    have "length (elements g3) = length (elements g2) + length (concat (map visitOrder (branches node)))"
      by (simp only: e3 length_append)
    then have vlt3: "vid < length (vertices g3)" using vlt2 by simp
    have e4: "elements g' = elements g3 @ (case next_node node of None \<Rightarrow> [] | Some n \<Rightarrow> visitOrder n)"
    proof (cases "hasNext node")
      case True
      then obtain nx where nx: "next_node node = Some nx"
        and r: "init nx (branchCount node + offset_of node) (Some vid) False g3 = Inr g'"
        using n by auto
      have "wellFormed nx" using wfn nx by simp
      then show ?thesis using "1.IH"(3)[OF iv refl s' b True nx] r vlt3 nx by auto
    next
      case False
      then show ?thesis using n hn by simp
    qed
    show "elements g' = elements g @ visitOrder node"
      unfolding e4 e3 e2 e1 visitOrder_sel[OF wf] by simp
  qed
next
  case (2 i stereoHydrogens vid g)
  show ?case
  proof (intro allI impI)
    fix g'
    assume run: "init_stereo i stereoHydrogens vid g = Inr g'"
      and vid: "vid < length (vertices g)"
    show "elements g' = elements g @ replicate (stereoHydrogens - i) (Sym ''H'')"
    proof (cases "i < stereoHydrogens")
      case True
      then obtain g1 where a: "init hydrogen i (Some vid) True g = Inr g1"
        and b: "init_stereo (i + 1) stereoHydrogens vid g1 = Inr g'"
        using run by (subst (asm) init_stereo.simps) (auto split: sum.splits)
      have e1: "elements g1 = elements g @ [Sym ''H'']"
        using "2.IH"(1)[OF True] a vid wellFormed_hydrogen by (auto simp: visitOrder_hydrogen)
      then have "length (elements g1) = length (elements g) + 1" by simp
      then have "vid < length (vertices g1)" using vid by simp
      then have e2: "elements g' = elements g1 @ replicate (stereoHydrogens - (i + 1)) (Sym ''H'')"
        using "2.IH"(2)[OF True a] b by auto
      have "stereoHydrogens - i = Suc (stereoHydrogens - (i + 1))" using True by simp
      then show ?thesis unfolding e2 e1 by simp
    next
      case False
      then have "g' = g" using run by (subst (asm) init_stereo.simps) simp
      then show ?thesis using False by simp
    qed
  qed
next
  case (3 bs i n offset vid g)
  show ?case
  proof (intro allI impI)
    fix g'
    assume run: "init_branches bs i n offset vid g = Inr g'"
      and wf: "list_all wellFormed bs" and n: "n = length bs" and vid: "vid < length (vertices g)"
    show "elements g' = elements g @ concat (map visitOrder (drop i bs))"
    proof (cases "i < n")
      case True
      then have il: "i < length bs" using n by simp
      obtain g1 where a: "init (bs ! i) (i + offset) (Some vid) True g = Inr g1"
        and b: "init_branches bs (i + 1) n offset vid g1 = Inr g'"
        using run True il by (subst (asm) init_branches.simps) (auto split: sum.splits)
      have "wellFormed (bs ! i)" using wf il by (simp add: list_all_length)
      then have e1: "elements g1 = elements g @ visitOrder (bs ! i)"
        using "3.IH"(1)[OF True il] a vid by auto
      then have "length (elements g1) = length (elements g) + length (visitOrder (bs ! i))" by simp
      then have "vid < length (vertices g1)" using vid by simp
      then have e2: "elements g' = elements g1 @ concat (map visitOrder (drop (i + 1) bs))"
        using "3.IH"(2)[OF True il a] b wf n by auto
      have "drop i bs = bs ! i # drop (i + 1) bs"
        using il by (simp add: Cons_nth_drop_Suc)
      then show ?thesis unfolding e2 e1 by simp
    next
      case False
      then have "g' = g" using run by (subst (asm) init_branches.simps) simp
      then show ?thesis using False n by simp
    qed
  qed
qed

lemma Graph_new_order:
  assumes "Graph_new tree isom = Inr g" and "wellFormed tree"
  shows "elements g = visitOrder tree"
  using init_order_aux(1)[of tree 0 None False "empty_graph isom"] assms
  by (simp add: Graph_new_def elements_def empty_graph_def)

section \<open>Properties of the Graph builder\<close>

text \<open>
  C5. For every parse tree of the documented shape the construction of a graph returns a
  graph: it terminates (the builder is a total function on parse trees) and no path of
  it throws.
\<close>

theorem Graph_new_no_error:
  assumes "wellFormed tree"
  shows "\<exists>g. Graph_new tree isom = Inr g"
  using Graph_new_total[OF assms] by blast

theorem Graph_new_no_error_witness:
  "wellFormed example_chiral
   \<and> (\<exists>g. Graph_new example_chiral False = Inr g)
   \<and> map_sum id atomIdxToVertexId (Graph_new example_chiral False) = Inr [0, 2, 3, 4]"
  using Graph_new_no_error [OF wellFormed_example_chiral, of False] wellFormed_example_chiral
    chiral_index_map
  by simp

text \<open>
  Outside the documented shape the builder can throw: a \<^verbatim>\<open>branchCount\<close> beyond the
  branches reads \<^verbatim>\<open>undefined\<close>.
\<close>

lemma Graph_new_malformed:
  "Graph_new (ParseTreeNode (Simple ''C'') ''-'' None [] [] 1 0 None False) False = Inl TypeError"
  by code_simp

text \<open>
  C2, as the code has it. In the graph built from a parse tree, the vertices that have an
  index carry the indices 0, 1, 2, ... in the order of their creation, \<^verbatim>\<open>atomIdxToVertexId\<close>
  lists their vertex ids in that order, and the elements of the vertices in that order are
  the elements of the atoms in the order in which \<^verbatim>\<open>_init\<close> visits them (the atom, its
  stereo hydrogens, its branches, the rest of the chain). Every atom whose element is not
  \<^verbatim>\<open>H\<close> has an index, and an atom whose element is \<^verbatim>\<open>H\<close> has an index exactly when it
  is the root of the parse tree (vertex 0) and the root has no \<^verbatim>\<open>next\<close> node.
\<close>

theorem Graph_heavy_atom_index:
  assumes "wellFormed tree"
  shows "\<exists>g. Graph_new tree isom = Inr g
     \<and> map (\<lambda>v. idx (vertex_value v)) (filter indexed (vertices g))
         = map Some [0..<length (filter indexed (vertices g))]
     \<and> atomIdxToVertexId g = map id_vertex (filter indexed (vertices g))
     \<and> elements g = visitOrder tree
     \<and> atomIdx g = length (filter indexed (vertices g))
     \<and> (\<forall>v\<in>set (vertices g). element (vertex_value v) \<noteq> Sym ''H'' \<longrightarrow> indexed v)
     \<and> (\<forall>v\<in>set (vertices g). element (vertex_value v) = Sym ''H'' \<longrightarrow>
           indexed v = (id_vertex v = 0 \<and> \<not> hasNext tree))"
proof -
  obtain g where g: "Graph_new tree isom = Inr g"
    using Graph_new_total[OF assms] by blast
  have inv: "idx_inv tree g" using Graph_new_idx_inv[OF g] .
  have m: "map (\<lambda>v. idx (vertex_value v)) (filter indexed (vertices g)) = map Some [0..<atomIdx g]"
    using inv by (simp add: idx_inv_def)
  have "length (map (\<lambda>v. idx (vertex_value v)) (filter indexed (vertices g)))
        = length (map Some [0..<atomIdx g])"
    by (simp only: m)
  then have n: "atomIdx g = length (filter indexed (vertices g))" by simp
  have "map (\<lambda>v. idx (vertex_value v)) (filter indexed (vertices g))
         = map Some [0..<length (filter indexed (vertices g))]"
    using m n by simp
  moreover have "atomIdxToVertexId g = map id_vertex (filter indexed (vertices g))"
    using inv by (simp add: idx_inv_def)
  moreover have "\<forall>v\<in>set (vertices g). element (vertex_value v) \<noteq> Sym ''H'' \<longrightarrow> indexed v"
    using inv by (simp add: idx_inv_def)
  moreover have "\<forall>v\<in>set (vertices g). element (vertex_value v) = Sym ''H'' \<longrightarrow>
           indexed v = (id_vertex v = 0 \<and> \<not> hasNext tree)"
    using inv by (simp add: idx_inv_def)
  moreover have "elements g = visitOrder tree"
    using Graph_new_order[OF g assms] .
  ultimately show ?thesis using g n by blast
qed

theorem Graph_heavy_atom_index_witness:
  "wellFormed example_chiral
   \<and> (\<exists>g. Graph_new example_chiral False = Inr g
     \<and> map (\<lambda>v. idx (vertex_value v)) (filter indexed (vertices g))
         = map Some [0..<length (filter indexed (vertices g))]
     \<and> atomIdxToVertexId g = map id_vertex (filter indexed (vertices g))
     \<and> elements g = visitOrder example_chiral
     \<and> atomIdx g = length (filter indexed (vertices g))
     \<and> (\<forall>v\<in>set (vertices g). element (vertex_value v) \<noteq> Sym ''H'' \<longrightarrow> indexed v)
     \<and> (\<forall>v\<in>set (vertices g). element (vertex_value v) = Sym ''H'' \<longrightarrow>
           indexed v = (id_vertex v = 0 \<and> \<not> hasNext example_chiral)))
   \<and> map_sum id vertex_summary (Graph_new example_chiral False)
       = Inr [(Sym ''C'', Some 0, None, True), (Sym ''H'', None, Some 0, False),
          (Sym ''F'', Some 1, Some 0, False), (Sym ''Cl'', Some 2, Some 0, False),
          (Sym ''Br'', Some 3, Some 0, False)]
   \<and> map_sum id atomIdxToVertexId (Graph_new example_chiral False) = Inr [0, 2, 3, 4]"
  using Graph_heavy_atom_index [OF wellFormed_example_chiral, of False] wellFormed_example_chiral
    chiral_vertices chiral_index_map
  by simp

text \<open>
  The claim as stated fails on \<^verbatim>\<open>[H](C)\<close>: the hydrogen at the root has a branch and no
  \<^verbatim>\<open>next\<close> node; it is not the only atom of the molecule, and it receives index 0.
\<close>

theorem Graph_hydrogen_root_counterexample:
  "map_sum id vertex_summary (Graph_new example_hydrogen_root False)
     = Inr [(Sym ''H'', Some 0, None, False), (Sym ''C'', Some 1, Some 0, False)]"
  by (rule hydrogen_root_vertices)

text \<open>
  C3 fails on the code. The edge of the double bond of \<^verbatim>\<open>C=C\<close> carries the symbol \<^verbatim>\<open>=\<close>
  and the weight 1, where the symbol table gives 2: the edge literal of \<^verbatim>\<open>_init\<close> has a
  \<^verbatim>\<open>setBondType\<close> of its own that stores the symbol and leaves the weight.
\<close>

theorem Graph_double_bond_weight:
  "map_sum id edge_summary (Graph_new example_double_bond False) = Inr [(0, 1, ''='', 1)]
   \<and> bonds ''='' = Some 2
   \<and> Edge.weight (setBondType (Edge_new 0 1 1) ''='') = Some 2"
  using double_bond_edges by (simp add: bonds_def setBondType_def Edge_new_def)

text \<open>Every edge of every graph the builder returns has weight 1.\<close>

lemma Graph_new_weights: "Graph_new tree isom = Inr g \<Longrightarrow> e \<in> set (edges g) \<Longrightarrow> weight e = 1"
  using Graph_new_weight_inv[of tree isom g] by (simp add: weight_inv_def)

text \<open>
  C4. The graph built from a parse tree of the documented shape has one vertex for each
  atom node of the tree and, for each bracket atom that carries a chirality tag, as many
  more as its bracket hydrogen count. A vertex is marked \<^verbatim>\<open>isStereoCenter\<close> exactly when
  its atom is a bracket with a chirality tag, and the vertices created right after a
  stereocentre, as many as its hydrogen count, are hydrogens without bracket and index,
  whose parent is the stereocentre and which the stereocentre lists among its children.
\<close>

theorem Graph_vertex_count:
  assumes "wellFormed tree"
  shows "\<exists>g. Graph_new tree isom = Inr g
     \<and> length (vertices g) = atomNodes tree + stereoHydrogenTotal tree
     \<and> (\<forall>v\<in>set (vertices g).
           isStereoCenter (vertex_value v)
             = (case bracket (vertex_value v) of None \<Rightarrow> False | Some b \<Rightarrow> hasChirality b))
     \<and> (\<forall>i<length (vertices g). stereo_done g i)"
proof -
  obtain g where g: "Graph_new tree isom = Inr g"
    and n: "length (vertices g) = atomNodes tree + stereoHydrogenTotal tree"
    using Graph_new_total[OF assms] by blast
  have "\<forall>v\<in>set (vertices g).
           isStereoCenter (vertex_value v)
             = (case bracket (vertex_value v) of None \<Rightarrow> False | Some b \<Rightarrow> hasChirality b)"
    using Graph_new_flag_inv[OF g] by (simp add: flag_inv_def)
  moreover have "\<forall>i<length (vertices g). stereo_done g i"
    using Graph_new_stereo_done[OF g] by simp
  ultimately show ?thesis using g n by blast
qed

theorem Graph_vertex_count_witness:
  "wellFormed example_chiral
   \<and> (\<exists>g. Graph_new example_chiral False = Inr g
     \<and> length (vertices g) = atomNodes example_chiral + stereoHydrogenTotal example_chiral
     \<and> (\<forall>v\<in>set (vertices g).
           isStereoCenter (vertex_value v)
             = (case bracket (vertex_value v) of None \<Rightarrow> False | Some b \<Rightarrow> hasChirality b))
     \<and> (\<forall>i<length (vertices g). stereo_done g i))
   \<and> atomNodes example_chiral = 4 \<and> stereoHydrogenTotal example_chiral = 1
   \<and> map_sum id vertex_summary (Graph_new example_chiral False)
       = Inr [(Sym ''C'', Some 0, None, True), (Sym ''H'', None, Some 0, False),
          (Sym ''F'', Some 1, Some 0, False), (Sym ''Cl'', Some 2, Some 0, False),
          (Sym ''Br'', Some 3, Some 0, False)]"
proof -
  have "atomNodes example_chiral = 4" "stereoHydrogenTotal example_chiral = 1"
    by (simp_all add: example_chiral_def plain_atom_def hasChirality_def)
  then show ?thesis
    using Graph_vertex_count [OF wellFormed_example_chiral, of False] wellFormed_example_chiral
      chiral_vertices
    by simp
qed

text \<open>
  C6. In the graph built from a parse tree of the documented shape, the vertex at
  position \<open>i\<close> of the array has id \<open>i\<close>; vertex 0 has no parent; every other vertex has
  a parent with a smaller id (an earlier vertex), and that parent lists it among its
  \<^verbatim>\<open>spanningTreeChildren\<close> and its \<^verbatim>\<open>neighbours\<close>; following the parents from any vertex
  ends at vertex 0, so the relation has no cycle and its root is vertex 0.
\<close>

theorem Graph_spanning_tree:
  assumes "wellFormed tree"
  shows "\<exists>g. Graph_new tree isom = Inr g
     \<and> vertices g \<noteq> []
     \<and> (\<forall>i<length (vertices g). id_vertex (vertices g ! i) = i)
     \<and> parentVertexId (vertices g ! 0) = None
     \<and> (\<forall>i<length (vertices g). 0 < i \<longrightarrow>
           (\<exists>p<i. parentVertexId (vertices g ! i) = Some p
                 \<and> i \<in> set (spanningTreeChildren (vertices g ! p))
                 \<and> i \<in> set (neighbours (vertices g ! p))))
     \<and> (\<forall>i<length (vertices g). climb g i i = 0)"
proof -
  obtain g where g: "Graph_new tree isom = Inr g"
    and n: "length (vertices g) = atomNodes tree + stereoHydrogenTotal tree"
    using Graph_new_total[OF assms] by blast
  have "0 < atomNodes tree" by (cases tree) simp
  then have ne: "vertices g \<noteq> []" using n by auto
  have inv: "tree_inv g" using Graph_new_tree_inv[OF g] .
  have ids: "\<forall>i<length (vertices g). id_vertex (vertices g ! i) = i"
    using inv by (simp add: tree_inv_def)
  have root: "parentVertexId (vertices g ! 0) = None"
  proof (cases "parentVertexId (vertices g ! 0)")
    case None
    then show ?thesis .
  next
    case (Some p)
    then show ?thesis using inv ne by (auto simp: tree_inv_def)
  qed
  have par: "\<forall>i<length (vertices g). 0 < i \<longrightarrow>
           (\<exists>p<i. parentVertexId (vertices g ! i) = Some p
                 \<and> i \<in> set (spanningTreeChildren (vertices g ! p))
                 \<and> i \<in> set (neighbours (vertices g ! p)))"
  proof (intro allI impI)
    fix i assume i: "i < length (vertices g)" and pos: "0 < i"
    show "\<exists>p<i. parentVertexId (vertices g ! i) = Some p
                 \<and> i \<in> set (spanningTreeChildren (vertices g ! p))
                 \<and> i \<in> set (neighbours (vertices g ! p))"
    proof (cases "parentVertexId (vertices g ! i)")
      case None
      then show ?thesis using inv i pos by (auto simp: tree_inv_def)
    next
      case (Some p)
      then show ?thesis using inv i by (auto simp: tree_inv_def)
    qed
  qed
  have "\<forall>i<length (vertices g). climb g i i = 0"
    using climb_root[OF inv] by simp
  then show ?thesis using g ne ids root par by blast
qed

theorem Graph_spanning_tree_witness:
  "wellFormed example_chiral
   \<and> (\<exists>g. Graph_new example_chiral False = Inr g
     \<and> vertices g \<noteq> []
     \<and> (\<forall>i<length (vertices g). id_vertex (vertices g ! i) = i)
     \<and> parentVertexId (vertices g ! 0) = None
     \<and> (\<forall>i<length (vertices g). 0 < i \<longrightarrow>
           (\<exists>p<i. parentVertexId (vertices g ! i) = Some p
                 \<and> i \<in> set (spanningTreeChildren (vertices g ! p))
                 \<and> i \<in> set (neighbours (vertices g ! p))))
     \<and> (\<forall>i<length (vertices g). climb g i i = 0))
   \<and> map_sum id vertex_summary (Graph_new example_chiral False)
       = Inr [(Sym ''C'', Some 0, None, True), (Sym ''H'', None, Some 0, False),
          (Sym ''F'', Some 1, Some 0, False), (Sym ''Cl'', Some 2, Some 0, False),
          (Sym ''Br'', Some 3, Some 0, False)]"
  using Graph_spanning_tree [OF wellFormed_example_chiral, of False] wellFormed_example_chiral
    chiral_vertices
  by simp

section \<open>Inversions and transpositions\<close>

lemma cross_Nil [simp]: "cross [] ys = 0"
  by (simp add: cross_def)

lemma cross_Cons [simp]: "cross (x # xs) ys = length (filter (\<lambda>y. y < x) ys) + cross xs ys"
  by (simp add: cross_def)

lemma cross_Cons_right:
  "cross xs (y # ys) = length (filter (\<lambda>x. y < x) xs) + cross xs ys"
  by (induction xs) auto

lemma cross_append_right: "cross xs (ys @ zs) = cross xs ys + cross xs zs"
  by (induction xs) auto

lemma inversions_append: "inversions (xs @ ys) = inversions xs + inversions ys + cross xs ys"
  by (induction xs) auto

lemma less_greater_split:
  "x \<notin> set ms \<Longrightarrow>
   length (filter (\<lambda>m. m < x) ms) + length (filter (\<lambda>m. x < m) ms) = length (ms :: nat list)"
  by (induction ms) auto

lemma cross_swap_right: "cross us (x # ms @ y # vs) = cross us (y # ms @ x # vs)"
  by (induction us) auto

lemma inversions_middle:
  "inversions (x # ms @ y # vs) =
     length (filter (\<lambda>m. m < x) ms) + (if y < x then 1 else 0) + length (filter (\<lambda>v. v < x) vs)
     + inversions ms + length (filter (\<lambda>m. y < m) ms) + cross ms vs
     + length (filter (\<lambda>v. v < y) vs) + inversions vs"
  by (simp add: inversions_append cross_Cons_right)

lemma inversions_swap_middle:
  assumes "x \<noteq> y" and "x \<notin> set ms" and "y \<notin> set ms"
  shows "odd (inversions (x # ms @ y # vs) + inversions (y # ms @ x # vs))"
proof -
  let ?a = "length (filter (\<lambda>v. v < x) vs) + inversions ms + cross ms vs
            + length (filter (\<lambda>v. v < y) vs) + inversions vs"
  have "inversions (x # ms @ y # vs) + inversions (y # ms @ x # vs)
      = 2 * ?a
        + (length (filter (\<lambda>m. m < x) ms) + length (filter (\<lambda>m. x < m) ms))
        + (length (filter (\<lambda>m. m < y) ms) + length (filter (\<lambda>m. y < m) ms))
        + ((if y < x then 1 else 0) + (if x < y then 1 else 0))"
    unfolding inversions_middle by simp
  also have "\<dots> = 2 * ?a + 2 * length ms + 1"
    using assms by (simp add: less_greater_split)
  finally show ?thesis by simp
qed

lemma inversions_swap_append:
  assumes "x \<noteq> y" and "x \<notin> set ms" and "y \<notin> set ms"
  shows "even (inversions (us @ y # ms @ x # vs)) = (\<not> even (inversions (us @ x # ms @ y # vs)))"
proof -
  let ?p = "inversions (x # ms @ y # vs)" and ?q = "inversions (y # ms @ x # vs)"
  let ?c = "cross us (x # ms @ y # vs)"
  have e1: "inversions (us @ x # ms @ y # vs) = inversions us + ?p + ?c"
    by (rule inversions_append)
  have e2: "inversions (us @ y # ms @ x # vs) = inversions us + ?q + ?c"
    unfolding cross_swap_right[of us x ms y vs] by (rule inversions_append)
  have o: "odd (?p + ?q)" by (rule inversions_swap_middle[OF assms])
  have "inversions (us @ x # ms @ y # vs) + inversions (us @ y # ms @ x # vs)
        = 2 * (inversions us + ?c) + (?p + ?q)"
    unfolding e1 e2 by simp
  then have "odd (inversions (us @ x # ms @ y # vs) + inversions (us @ y # ms @ x # vs))"
    using o by simp
  then show ?thesis by presburger
qed

lemma split_two:
  assumes "a < b" and "b < length xs"
  obtains us ms vs where "xs = us @ xs ! a # ms @ xs ! b # vs" and "length us = a"
    and "length ms = b - a - 1"
proof -
  let ?rest = "drop (Suc a) xs"
  have a: "a < length xs" using assms by simp
  have 1: "xs = take a xs @ xs ! a # ?rest" using a by (simp add: id_take_nth_drop)
  have b': "b - Suc a < length ?rest" using assms by simp
  have 2: "?rest = take (b - Suc a) ?rest @ ?rest ! (b - Suc a) # drop (Suc (b - Suc a)) ?rest"
    using b' by (rule id_take_nth_drop)
  have 3: "?rest ! (b - Suc a) = xs ! b" using assms by simp
  have "xs = take a xs @ xs ! a # take (b - Suc a) ?rest @ xs ! b # drop (Suc (b - Suc a)) ?rest"
    using 1 2 3 by metis
  moreover have "length (take a xs) = a" using a by simp
  moreover have "length (take (b - Suc a) ?rest) = b - a - 1" using assms by simp
  ultimately show ?thesis using that by blast
qed

lemma inversions_swap_lt:
  assumes d: "distinct xs" and ab: "a < b" and b: "b < length xs"
  shows "even (inversions (xs[a := xs ! b, b := xs ! a])) = (\<not> even (inversions xs))"
proof -
  obtain us ms vs where xs: "xs = us @ xs ! a # ms @ xs ! b # vs" and la: "length us = a"
    and lm: "length ms = b - a - 1"
    using split_two[OF ab b] by blast
  let ?x = "xs ! a" and ?y = "xs ! b"
  have dd: "distinct (us @ ?x # ms @ ?y # vs)" using d xs by metis
  then have ne: "?x \<noteq> ?y" and nx: "?x \<notin> set ms" and ny: "?y \<notin> set ms" by auto
  have bpos: "b = length us + Suc (length ms)" using la lm ab by simp
  have "(us @ ?x # ms @ ?y # vs)[a := ?y, b := ?x] = us @ ?y # ms @ ?x # vs"
    unfolding bpos la[symmetric] by (simp add: list_update_append)
  then have "xs[a := ?y, b := ?x] = us @ ?y # ms @ ?x # vs" using xs by metis
  moreover have "even (inversions (us @ ?y # ms @ ?x # vs)) = (\<not> even (inversions (us @ ?x # ms @ ?y # vs)))"
    by (rule inversions_swap_append[OF ne nx ny])
  ultimately show ?thesis using xs by metis
qed

lemma inversions_swap:
  assumes d: "distinct xs" and a: "a < length xs" and b: "b < length xs" and ne: "a \<noteq> b"
  shows "even (inversions (xs[a := xs ! b, b := xs ! a])) = (\<not> even (inversions xs))"
proof (cases "a < b")
  case True
  then show ?thesis using inversions_swap_lt[OF d True b] by simp
next
  case False
  then have ba: "b < a" using ne by simp
  have "xs[a := xs ! b, b := xs ! a] = xs[b := xs ! a, a := xs ! b]"
    using ne by (simp add: list_update_swap)
  then show ?thesis using inversions_swap_lt[OF d ba a] by simp
qed

lemma inversions_upt: "inversions [i..<j] = 0"
proof (induction "j - i" arbitrary: i)
  case 0
  then show ?case by simp
next
  case (Suc n)
  then have "i < j" by simp
  then have "[i..<j] = i # [Suc i..<j]" by (simp add: upt_conv_Cons)
  moreover have "filter (\<lambda>y. y < i) [Suc i..<j] = []" by (auto simp: filter_empty_conv)
  moreover have "inversions [Suc i..<j] = 0" using Suc by simp
  ultimately show ?case by simp
qed

lemma isPermutation_nth: "isPermutation arr \<Longrightarrow> k < length arr \<Longrightarrow> arr ! k < length arr"
  by (simp add: isPermutation_def list_all_length)

lemma isPermutation_inj:
  "isPermutation arr \<Longrightarrow> j < length arr \<Longrightarrow> k < length arr \<Longrightarrow> arr ! j = arr ! k \<Longrightarrow> j = k"
  by (simp add: isPermutation_def nth_eq_iff_index_eq)

lemma length_open_part [simp]: "length (open_part arr vis prev i0) = length arr"
  by (simp add: open_part_def)

lemma length_closed_part [simp]: "length (closed_part arr vis) = length arr"
  by (simp add: closed_part_def)

lemma open_part_closes:
  "prev < length arr \<Longrightarrow> arr ! prev = i0 \<Longrightarrow> open_part arr vis prev i0 = closed_part arr vis"
  by (auto simp: open_part_def closed_part_def)

lemma open_part_start:
  "\<not> vis i \<Longrightarrow> open_part arr (vis(i := True)) i i = closed_part arr vis"
  by (auto simp: open_part_def closed_part_def)

lemma open_part_step:
  assumes "prev < length arr" and "k < length arr" and "prev \<noteq> k" and "vis prev" and "\<not> vis k"
    and "arr ! prev = k"
  shows "open_part arr (vis(k := True)) k i0
         = (open_part arr vis prev i0)[prev := open_part arr vis prev i0 ! k,
                                       k := open_part arr vis prev i0 ! prev]"
proof (rule nth_equalityI)
  show "length (open_part arr (vis(k := True)) k i0)
        = length ((open_part arr vis prev i0)[prev := open_part arr vis prev i0 ! k,
                                       k := open_part arr vis prev i0 ! prev])"
    by simp
next
  fix j assume "j < length (open_part arr (vis(k := True)) k i0)"
  then have j: "j < length arr" by simp
  show "open_part arr (vis(k := True)) k i0 ! j
        = (open_part arr vis prev i0)[prev := open_part arr vis prev i0 ! k,
                                       k := open_part arr vis prev i0 ! prev] ! j"
    using assms j by (auto simp: open_part_def nth_list_update)
qed

lemma closed_part_all:
  "(\<forall>j<length arr. vis j) \<Longrightarrow> closed_part arr vis = arr"
  by (auto simp: closed_part_def intro: nth_equalityI)

lemma closed_part_none: "closed_part arr (\<lambda>k. False) = [0..<length arr]"
  by (simp add: closed_part_def)

lemma visitedSet_upd:
  "k < length arr \<Longrightarrow> visitedSet arr (vis(k := True)) = insert k (visitedSet arr vis)"
  by (auto simp: visitedSet_def)

lemma traverseCycle_visited:
  "is_visited arr st i \<Longrightarrow> traverseCycle arr st i cl = (cl, st)"
  by (subst traverseCycle.simps) simp

lemma traverseCycle_step:
  "\<not> is_visited arr st i \<Longrightarrow>
   traverseCycle arr st i cl = traverseCycle arr (mark_visited arr st i) (at_index arr i) (cl + 1)"
  by (subst traverseCycle.simps) simp

lemma traverseCycle_correct_aux:
  "\<forall>vis u k prev i0. st = (vis, u) \<longrightarrow> i = Some k \<longrightarrow> isPermutation arr \<longrightarrow>
      prev < length arr \<longrightarrow> i0 < length arr \<longrightarrow> vis prev \<longrightarrow> vis i0 \<longrightarrow> arr ! prev = k \<longrightarrow>
      nth arr ` (visitedSet arr vis - {prev}) = visitedSet arr vis - {i0} \<longrightarrow>
      distinct (open_part arr vis prev i0) \<longrightarrow>
      traversed arr vis prev i0 cl (traverseCycle arr st i cl)"
proof (induction arr st i cl rule: traverseCycle.induct)
  case (1 arr st i cl)
  show ?case
  proof (intro allI impI)
    fix vis u k prev i0
    assume st: "st = (vis, u)" and i: "i = Some k" and perm: "isPermutation arr"
      and prev: "prev < length arr" and i0: "i0 < length arr"
      and vl: "vis prev" and v0: "vis i0" and k: "arr ! prev = k"
      and inv: "nth arr ` (visitedSet arr vis - {prev}) = visitedSet arr vis - {i0}"
      and dist: "distinct (open_part arr vis prev i0)"
    let ?V = "visitedSet arr vis"
    have kn: "k < length arr" using isPermutation_nth[OF perm prev] k by simp
    have pV: "prev \<in> ?V" and iV: "i0 \<in> ?V" using prev i0 vl v0 by (simp_all add: visitedSet_def)
    have img: "nth arr ` ?V = insert k (?V - {i0})"
    proof -
      have "?V = insert prev (?V - {prev})" using pV by auto
      then have "nth arr ` ?V = insert (arr ! prev) (nth arr ` (?V - {prev}))" by (metis image_insert)
      then show ?thesis using inv k by simp
    qed
    show "traversed arr vis prev i0 cl (traverseCycle arr st i cl)"
    proof (cases "vis k")
      case True
      have "k = i0"
      proof (rule ccontr)
        assume ne: "k \<noteq> i0"
        then have "k \<in> ?V - {i0}" using True kn by (simp add: visitedSet_def)
        then have "k \<in> nth arr ` (?V - {prev})" using inv by simp
        then obtain j where j: "j \<in> ?V" "j \<noteq> prev" "arr ! j = k" by auto
        then have "j < length arr" by (simp add: visitedSet_def)
        then have "j = prev" using isPermutation_inj[OF perm _ prev] j k by simp
        then show False using j by simp
      qed
      then have cl: "open_part arr vis prev i0 = closed_part arr vis"
        using open_part_closes[OF prev] k by simp
      have "nth arr ` ?V = ?V" using img \<open>k = i0\<close> iV by auto
      moreover have "traverseCycle arr st i cl = (cl, st)"
        using True kn st i by (simp add: traverseCycle_visited is_visited_def)
      ultimately show ?thesis using dist cl st by (simp add: traversed_def)
    next
      case False
      then have nv: "\<not> is_visited arr st i" using st i by (simp add: is_visited_def)
      let ?vis2 = "vis(k := True)"
      have m: "mark_visited arr st i = (?vis2, u)" using st i kn by (simp add: mark_visited_def)
      have a: "at_index arr i = Some (arr ! k)" using i kn by (simp add: at_index_def)
      have run: "traverseCycle arr st i cl = traverseCycle arr (?vis2, u) (Some (arr ! k)) (cl + 1)"
        using traverseCycle_step[OF nv] m a by simp
      have kl: "prev \<noteq> k" using False vl by auto
      have k0: "k \<noteq> i0" using False v0 by auto
      have V2: "visitedSet arr ?vis2 = insert k ?V" using visitedSet_upd[OF kn] .
      have kV: "k \<notin> ?V" using False by (simp add: visitedSet_def)
      have inv2: "nth arr ` (visitedSet arr ?vis2 - {k}) = visitedSet arr ?vis2 - {i0}"
      proof -
        have "visitedSet arr ?vis2 - {k} = ?V" using V2 kV by auto
        moreover have "visitedSet arr ?vis2 - {i0} = insert k (?V - {i0})" using V2 k0 by auto
        ultimately show ?thesis using img by simp
      qed
      let ?q = "open_part arr vis prev i0"
      have sw: "open_part arr ?vis2 k i0 = ?q[prev := ?q ! k, k := ?q ! prev]"
        using open_part_step[OF prev kn kl vl False k] .
      have dist2: "distinct (open_part arr ?vis2 k i0)"
        unfolding sw using dist prev kn by (simp add: distinct_swap)
      have par2: "even (inversions (open_part arr ?vis2 k i0)) = (\<not> even (inversions ?q))"
        unfolding sw using inversions_swap[OF dist _ _ kl] prev kn by simp
      have "traversed arr ?vis2 k i0 (cl + 1) (traverseCycle arr (?vis2, u) (Some (arr ! k)) (cl + 1))"
        using "1.IH"[OF nv] m a perm kn i0 v0 inv2 dist2 by simp
      then show ?thesis
        unfolding run traversed_def using par2
        by (auto split: prod.splits)
    qed
  qed
qed

lemmas traverseCycle_correct = traverseCycle_correct_aux[rule_format]

lemma parity_loop_done: "\<not> i < length arr \<Longrightarrow> parity_loop arr i c st = c"
  by (subst parity_loop.simps) simp

lemma parity_loop_skip:
  "i < length arr \<Longrightarrow> is_visited arr st (Some i) \<Longrightarrow>
   parity_loop arr i c st = parity_loop arr (i + 1) c st"
  by (subst parity_loop.simps) simp

lemma parity_loop_cycle:
  "i < length arr \<Longrightarrow> \<not> is_visited arr st (Some i) \<Longrightarrow>
   traverseCycle arr st (Some i) 0 = (cl, st') \<Longrightarrow>
   parity_loop arr i c st = parity_loop arr (i + 1) (c + (1 - cl mod 2)) st'"
  by (subst parity_loop.simps) simp

lemma first_cycle:
  assumes perm: "isPermutation arr" and i: "i < length arr" and nv: "\<not> vis i"
    and closed: "nth arr ` visitedSet arr vis = visitedSet arr vis"
    and dist: "distinct (closed_part arr vis)"
    and run: "traverseCycle arr (vis, u) (Some i) 0 = (cl, (vis', u'))"
  shows "1 \<le> cl" and "\<forall>j. vis j \<longrightarrow> vis' j" and "vis' i"
    and "nth arr ` visitedSet arr vis' = visitedSet arr vis'"
    and "distinct (closed_part arr vis')"
    and "even (inversions (closed_part arr vis')) = (even (inversions (closed_part arr vis)) = even (cl - 1))"
proof -
  let ?vis1 = "vis(i := True)"
  have nvis: "\<not> is_visited arr (vis, u) (Some i)" using nv by (simp add: is_visited_def)
  have m: "mark_visited arr (vis, u) (Some i) = (?vis1, u)" using i by (simp add: mark_visited_def)
  have a: "at_index arr (Some i) = Some (arr ! i)" using i by (simp add: at_index_def)
  have step: "traverseCycle arr (vis, u) (Some i) 0 = traverseCycle arr (?vis1, u) (Some (arr ! i)) 1"
    using traverseCycle_step[OF nvis, of 0] m a by simp
  have iV: "i \<notin> visitedSet arr vis" using nv by (simp add: visitedSet_def)
  have V1: "visitedSet arr ?vis1 - {i} = visitedSet arr vis"
    using visitedSet_upd[OF i, of vis] iV by auto
  have inv: "nth arr ` (visitedSet arr ?vis1 - {i}) = visitedSet arr ?vis1 - {i}"
    unfolding V1 by (rule closed)
  have op: "open_part arr ?vis1 i i = closed_part arr vis" using nv by (rule open_part_start)
  have "traversed arr ?vis1 i i 1 (traverseCycle arr (?vis1, u) (Some (arr ! i)) 1)"
    by (rule traverseCycle_correct[OF refl refl perm i i _ _ refl inv]) (simp_all add: op dist)
  then have t: "traversed arr ?vis1 i i 1 (cl, (vis', u'))" using step run by simp
  show "1 \<le> cl" using t by (simp add: traversed_def)
  have sub: "\<forall>j. ?vis1 j \<longrightarrow> vis' j" using t by (simp add: traversed_def)
  then show "vis' i" by simp
  show "\<forall>j. vis j \<longrightarrow> vis' j" using sub by auto
  show "nth arr ` visitedSet arr vis' = visitedSet arr vis'" using t by (simp add: traversed_def)
  show "distinct (closed_part arr vis')" using t by (simp add: traversed_def)
  show "even (inversions (closed_part arr vis')) = (even (inversions (closed_part arr vis)) = even (cl - 1))"
    using t by (simp add: traversed_def op)
qed

lemma parity_loop_correct_aux:
  "\<forall>vis u. st = (vis, u) \<longrightarrow> isPermutation arr \<longrightarrow> (\<forall>j<i. vis j) \<longrightarrow>
      nth arr ` visitedSet arr vis = visitedSet arr vis \<longrightarrow>
      distinct (closed_part arr vis) \<longrightarrow>
      even (inversions (closed_part arr vis)) = even c \<longrightarrow>
      even (parity_loop arr i c st) = even (inversions arr)"
proof (induction arr i c st rule: parity_loop.induct)
  case (1 arr i c st)
  show ?case
  proof (intro allI impI)
    fix vis u
    assume st: "st = (vis, u)" and perm: "isPermutation arr" and before: "\<forall>j<i. vis j"
      and closed: "nth arr ` visitedSet arr vis = visitedSet arr vis"
      and dist: "distinct (closed_part arr vis)"
      and par: "even (inversions (closed_part arr vis)) = even c"
    show "even (parity_loop arr i c st) = even (inversions arr)"
    proof (cases "i < length arr")
      case False
      then have "\<forall>j<length arr. vis j" using before by simp
      then have "closed_part arr vis = arr" by (rule closed_part_all)
      then show ?thesis using par False by (simp add: parity_loop_done)
    next
      case True
      show ?thesis
      proof (cases "is_visited arr st (Some i)")
        case v: True
        then have "vis i" using st by (simp add: is_visited_def)
        then have "\<forall>j<i + 1. vis j" using before by (auto simp: less_Suc_eq)
        then have "even (parity_loop arr (i + 1) c st) = even (inversions arr)"
          using "1.IH"(1)[OF True v] st perm closed dist par by blast
        then show ?thesis using parity_loop_skip[OF True v] by simp
      next
        case nv: False
        then have nvi: "\<not> vis i" using st True by (simp add: is_visited_def)
        obtain cl vis' u' where run: "traverseCycle arr st (Some i) 0 = (cl, (vis', u'))"
          by (metis prod.exhaust)
        have run': "traverseCycle arr (vis, u) (Some i) 0 = (cl, (vis', u'))" using run st by simp
        note fc = first_cycle[OF perm True nvi closed dist run']
        have "\<forall>j<i + 1. vis' j" using fc(2,3) before by (auto simp: less_Suc_eq)
        moreover have "even (inversions (closed_part arr vis')) = even (c + (1 - cl mod 2))"
          using fc(1) fc(6) par by (cases "even cl") auto
        ultimately have "even (parity_loop arr (i + 1) (c + (1 - cl mod 2)) (vis', u')) = even (inversions arr)"
          using "1.IH"(2)[OF True nv run[symmetric]] perm fc(4,5) by blast
        then show ?thesis using parity_loop_cycle[OF True nv run] by simp
      qed
    qed
  qed
qed

lemma parityOfPermutation_sign:
  assumes "isPermutation arr"
  shows "parityOfPermutation arr = sign arr"
proof -
  have "nth arr ` visitedSet arr (\<lambda>k. False) = visitedSet arr (\<lambda>k. False)"
    by (simp add: visitedSet_def)
  moreover have "distinct (closed_part arr (\<lambda>k. False))" by (simp add: closed_part_none)
  moreover have "even (inversions (closed_part arr (\<lambda>k. False))) = even (0::nat)"
    by (simp add: closed_part_none inversions_upt)
  ultimately have "even (parity_loop arr 0 0 (\<lambda>k. False, False)) = even (inversions arr)"
    using parity_loop_correct_aux[rule_format, where st = "(\<lambda>k. False, False)" and i = 0 and c = 0
        and arr = arr, OF refl assms]
    by simp
  then show ?thesis by (auto simp: parityOfPermutation_def sign_def)
qed

lemma transpositions_parity:
  "transpositions k xs \<Longrightarrow> isPermutation xs \<and> even (inversions xs) = even k"
proof (induction rule: transpositions.induct)
  case (identity n)
  then show ?case by (simp add: isPermutation_def inversions_upt list_all_iff)
next
  case (exchange k xs a b)
  then have d: "distinct xs" and r: "\<forall>x\<in>set xs. x < length xs"
    by (simp_all add: isPermutation_def list_all_iff)
  have "distinct (xs[a := xs ! b, b := xs ! a])" using d exchange by (simp add: distinct_swap)
  moreover have "set (xs[a := xs ! b, b := xs ! a]) = set xs"
    using exchange by (simp add: set_swap)
  ultimately have "isPermutation (xs[a := xs ! b, b := xs ! a])"
    using r by (simp add: isPermutation_def list_all_iff)
  moreover have "even (inversions (xs[a := xs ! b, b := xs ! a])) = even (Suc k)"
    using inversions_swap[OF d exchange(2,3,4)] exchange by simp
  ultimately show ?case by simp
qed

lemma isPermutation_set: "isPermutation arr = (set arr = {0..<length arr})"
proof
  assume p: "isPermutation arr"
  then have d: "distinct arr" and s: "set arr \<subseteq> {0..<length arr}"
    by (auto simp: isPermutation_def list_all_iff)
  have "card (set arr) = card {0..<length arr}" using d by (simp add: distinct_card)
  then show "set arr = {0..<length arr}" using s by (simp add: card_subset_eq)
next
  assume s: "set arr = {0..<length arr}"
  then have "card (set arr) = length arr" by simp
  then have "distinct arr" by (rule card_distinct)
  then show "isPermutation arr" using s by (auto simp: isPermutation_def list_all_iff)
qed

section \<open>Properties of MathHelper\<close>

text \<open>
  C9. For every array that is a permutation of \<open>0, \<dots>, n - 1\<close> (its entries are distinct
  and below its length), \<^verbatim>\<open>parityOfPermutation\<close> returns the sign of the permutation: 1
  when the permutation is even and -1 when it is odd, where the permutation is even when
  its number of inversions is even, and equally when it is reached from the identity by
  an even number of transpositions.
\<close>

theorem parityOfPermutation_correct:
  assumes "isPermutation arr"
  shows "parityOfPermutation arr = (if even (inversions arr) then 1 else - 1)
       \<and> (\<forall>k. transpositions k arr \<longrightarrow> parityOfPermutation arr = (if even k then 1 else - 1))"
proof -
  have s: "parityOfPermutation arr = (if even (inversions arr) then 1 else - 1)"
    using parityOfPermutation_sign[OF assms] by (simp add: sign_def)
  moreover have "parityOfPermutation arr = (if even k then 1 else - 1)" if "transpositions k arr" for k
    using transpositions_parity[OF that] s by simp
  ultimately show ?thesis by blast
qed

theorem parityOfPermutation_correct_witness:
  "isPermutation [1, 2, 0, 4, 3] \<and> inversions [1, 2, 0, 4, 3] = 3
   \<and> parityOfPermutation [1, 2, 0, 4, 3] = - 1
   \<and> isPermutation [1, 2, 0] \<and> inversions [1, 2, 0] = 2 \<and> parityOfPermutation [1, 2, 0] = 1"
proof -
  have p: "isPermutation [1, 2, 0, 4, 3]" "isPermutation [1, 2, 0]"
    by (simp_all add: isPermutation_def)
  have i: "inversions [1, 2, 0, 4, 3] = 3" "inversions [1, 2, 0] = 2"
    by simp_all
  show ?thesis
    using parityOfPermutation_correct [OF p(1)] parityOfPermutation_correct [OF p(2)] p i
    by simp
qed

text \<open>
  Outside the permutations the function still returns: an entry beyond the array leads
  to \<^verbatim>\<open>undefined\<close>, which is visited once.
\<close>

lemma parityOfPermutation_out_of_range: "parityOfPermutation [7] = 1"
  by code_simp

end
